theory Spec2Isabelle
  imports Main "HOL-Library.Word" "HOL-Library.AList" "HOL-Library.Monad_Syntax"
begin

section \<open>Bytes, typed arrays and data views\<close>

text \<open>
  The RCON client of \<^verbatim>\<open>src/rcon.ts\<close> works on \<^verbatim>\<open>Uint8Array\<close>s. A byte is an 8-bit
  word; the numbers that \<^verbatim>\<open>DataView.getInt32\<close> returns are JavaScript numbers holding a
  32-bit two's complement value, modelled as \<open>int\<close> with the wrap-around written out.
\<close>

type_synonym byte = "8 word"

text \<open>
  A \<^verbatim>\<open>Uint8Array\<close> is a view on an \<^verbatim>\<open>ArrayBuffer\<close>. The arrays that reach the client
  start at offset 0 of their buffer: \<open>bytes\<close> are the elements of the view, \<open>spare\<close> the
  bytes of the buffer behind the view. Arrays made by \<^verbatim>\<open>slice\<close>, \<^verbatim>\<open>concat\<close> and
  \<^verbatim>\<open>new Uint8Array(n)\<close> fill their buffer (\<open>spare = []\<close>); a chunk that a reader yields
  as \<^verbatim>\<open>b.subarray(0, n)\<close> of its read buffer \<^verbatim>\<open>b\<close> has the rest of \<^verbatim>\<open>b\<close> as spare.
\<close>

record u8array =
  bytes :: "byte list"
  spare :: "byte list"

definition buffer :: "u8array \<Rightarrow> byte list" where
  "buffer a = bytes a @ spare a"

definition fresh :: "byte list \<Rightarrow> u8array" where
  "fresh xs = \<lparr>bytes = xs, spare = []\<rparr>"

text \<open>Little-endian unsigned value of a byte sequence, and the two's complement reading.\<close>

definition le_nat :: "byte list \<Rightarrow> nat" where
  "le_nat bs = foldr (\<lambda>b n. unat b + 256 * n) bs 0"

definition to_int32 :: "nat \<Rightarrow> int" where
  "to_int32 u = (if u mod 2 ^ 32 \<ge> 2 ^ 31 then int (u mod 2 ^ 32) - 2 ^ 32 else int (u mod 2 ^ 32))"

definition le32 :: "int \<Rightarrow> byte list" where
  "le32 v =
     (let u = nat (v mod 2 ^ 32)
      in [of_nat (u mod 256), of_nat (u div 256 mod 256),
          of_nat (u div 65536 mod 256), of_nat (u div 16777216 mod 256)])"

definition le16 :: "int \<Rightarrow> byte list" where
  "le16 v =
     (let u = nat (v mod 2 ^ 16)
      in [of_nat (u mod 256), of_nat (u div 256 mod 256)])"

text \<open>
  \<^verbatim>\<open>new DataView(buf).getInt32(off, true)\<close>: a \<^verbatim>\<open>RangeError\<close> (here \<open>None\<close>) when the
  four bytes do not lie inside the buffer.
\<close>

definition getInt32 :: "byte list \<Rightarrow> nat \<Rightarrow> int option" where
  "getInt32 buf off =
     (if off + 4 > length buf then None
      else Some (to_int32 (le_nat (take 4 (drop off buf)))))"

text \<open>Writing \<open>src\<close> over the elements of \<open>xs\<close> from index \<open>off\<close> on.\<close>

definition overlay :: "byte list \<Rightarrow> nat \<Rightarrow> byte list \<Rightarrow> byte list" where
  "overlay xs off src = take off xs @ src @ drop (off + length src) xs"

text \<open>
  \<^verbatim>\<open>view.setInt32(off, v, true)\<close>, \<^verbatim>\<open>view.setInt16(off, v, true)\<close> and
  \<^verbatim>\<open>target.set(src, off)\<close>; each raises a \<^verbatim>\<open>RangeError\<close> (\<open>None\<close>) when the write
  would leave the array.
\<close>

definition setInt32 :: "byte list \<Rightarrow> nat \<Rightarrow> int \<Rightarrow> byte list option" where
  "setInt32 buf off v = (if off + 4 > length buf then None else Some (overlay buf off (le32 v)))"

definition setInt16 :: "byte list \<Rightarrow> nat \<Rightarrow> int \<Rightarrow> byte list option" where
  "setInt16 buf off v = (if off + 2 > length buf then None else Some (overlay buf off (le16 v)))"

definition set_u8 :: "byte list \<Rightarrow> byte list \<Rightarrow> nat \<Rightarrow> byte list option" where
  "set_u8 target src off =
     (if off + length src > length target then None else Some (overlay target off src))"

text \<open>
  \<^verbatim>\<open>data.slice(start, end)\<close> and \<^verbatim>\<open>data.slice(start)\<close> of a typed array: negative indices
  count from the end, both indices are clamped to the array, and the result is a copy.
\<close>

definition rel_index :: "nat \<Rightarrow> int \<Rightarrow> nat" where
  "rel_index n i = (if i < 0 then nat (max (int n + i) 0) else nat (min i (int n)))"

definition slice_u8 :: "byte list \<Rightarrow> int \<Rightarrow> int \<Rightarrow> byte list" where
  "slice_u8 xs start end =
     (let k = rel_index (length xs) start; f = rel_index (length xs) end
      in take (f - k) (drop k xs))"

definition slice_from :: "byte list \<Rightarrow> int \<Rightarrow> byte list" where
  "slice_from xs start = drop (rel_index (length xs) start) xs"

text \<open>\<^verbatim>\<open>concat(a, b)\<close> and \<^verbatim>\<open>equals(a, b)\<close> of the standard library's \<^verbatim>\<open>bytes\<close> module.\<close>

definition concat_u8 :: "byte list \<Rightarrow> byte list \<Rightarrow> byte list" where
  "concat_u8 a b = a @ b"

definition equals :: "byte list \<Rightarrow> byte list \<Rightarrow> bool" where
  "equals a b = (a = b)"

section \<open>Constants and exceptions\<close>

definition FrameBuffer :: "byte list" where
  "FrameBuffer = [0, 1, 0, 0]"

definition COMMAND :: int where "COMMAND = 2"
definition AUTH :: int where "AUTH = 3"
definition RESPONSE_VALUE :: int where "RESPONSE_VALUE = 0"
definition RESPONSE_AUTH :: int where "RESPONSE_AUTH = 2"

text \<open>
  The exceptions the client throws or hands to a \<^verbatim>\<open>reject\<close> callback. \<open>Error msg\<close> is
  \<^verbatim>\<open>new Error(msg)\<close>; \<open>TransportError n\<close> stands for whatever the transport throws.
\<close>

datatype exn =
    BadIpException
  | BadRconPasswordException
  | RconConnectionClosedException
  | Error string
  | RangeError
  | TransportError nat

section \<open>The client object\<close>

text \<open>
  A \<^verbatim>\<open>Request\<close> holds the bytes received so far and the \<^verbatim>\<open>resolve\<close>/\<^verbatim>\<open>reject\<close> pair of
  the promise that \<^verbatim>\<open>send\<close> returned to its caller; \<open>promise\<close> names that promise.
\<close>

record request =
  data :: "byte list"
  promise :: nat

text \<open>
  What the client does to the outside is kept as a list of events, oldest first: the calls
  of \<^verbatim>\<open>resolve\<close> and \<^verbatim>\<open>reject\<close> on a caller's promise, the same calls on a
  \<^verbatim>\<open>ResolvablePromise\<close> (the authentication slot), \<^verbatim>\<open>conn.close()\<close> and a completed
  \<^verbatim>\<open>conn.write(buf)\<close>.
\<close>

datatype event =
    Resolve nat string
  | Reject nat exn
  | AuthResolve nat
  | AuthReject nat exn
  | Close nat
  | Write nat "byte list"

text \<open>
  The fields of \<^verbatim>\<open>class Rcon\<close>. \<open>authed\<close> and \<open>conn\<close> hold the identity of the current
  \<^verbatim>\<open>ResolvablePromise\<close> and connection (\<open>None\<close> is \<^verbatim>\<open>undefined\<close>). \<open>requests\<close> is the
  \<^verbatim>\<open>Map\<close> from request id to \<^verbatim>\<open>Request\<close> in insertion order.
\<close>

record rcon =
  authed :: "nat option"
  conn :: "nat option"
  outstandingData :: "byte list option"
  requests :: "(int \<times> request) list"
  effects :: "event list"

text \<open>\<^verbatim>\<open>this.authed?.resolve()\<close> and \<^verbatim>\<open>this.authed?.reject(e)\<close>.\<close>

definition authed_resolve :: "rcon \<Rightarrow> rcon" where
  "authed_resolve s =
     (case authed s of
        None \<Rightarrow> s
      | Some a \<Rightarrow> s\<lparr>effects := effects s @ [AuthResolve a]\<rparr>)"

definition authed_reject :: "rcon \<Rightarrow> exn \<Rightarrow> rcon" where
  "authed_reject s e =
     (case authed s of
        None \<Rightarrow> s
      | Some a \<Rightarrow> s\<lparr>effects := effects s @ [AuthReject a e]\<rparr>)"

section \<open>Reading: \<^verbatim>\<open>readChunk\<close>\<close>

text \<open>
  The body of the \<^verbatim>\<open>if (len >= 10 && data.length >= len + 4)\<close> branch that routes one
  decoded packet (lines 150 to 170 of \<^verbatim>\<open>rcon.ts\<close>). \<open>dec\<close> is
  \<^verbatim>\<open>new TextDecoder().decode\<close>.
\<close>

definition dispatch :: "(byte list \<Rightarrow> string) \<Rightarrow> rcon \<Rightarrow> int \<Rightarrow> int \<Rightarrow> byte list \<Rightarrow> rcon" where
  "dispatch dec s id' type' payload =
     (if id' \<noteq> -1 then
        (if type' = RESPONSE_AUTH \<and> id' = 0 then authed_resolve s
         else if type' = RESPONSE_VALUE then
           (case map_of (requests s) id' of
              Some request \<Rightarrow>
                (if equals FrameBuffer payload then
                   (let str = dec (data request)
                    in s\<lparr>requests := AList.delete id' (requests s),
                         effects := effects s @ [Resolve (promise request) str]\<rparr>)
                 else
                   s\<lparr>requests :=
                        AList.update id' (request\<lparr>data := concat_u8 (data request) payload\<rparr>)
                          (requests s)\<rparr>)
            | None \<Rightarrow> s)
         else s)
      else if id' = -1 then authed_reject s BadRconPasswordException
      else s)"

text \<open>
  The four ways in which \<^verbatim>\<open>readChunk\<close> ends: the loop condition \<^verbatim>\<open>data.length\<close> fails,
  the \<^verbatim>\<open>return\<close> on a zero length, the \<^verbatim>\<open>break\<close> that keeps an incomplete packet, or an
  exception.
\<close>

datatype completion = LoopEnded | Returned | Broke | Threw exn

text \<open>
  The \<^verbatim>\<open>while (data.length)\<close> loop. The data view is made over \<^verbatim>\<open>data.buffer\<close>, so the
  length is read from the buffer, not from the view.
\<close>

function readLoop :: "(byte list \<Rightarrow> string) \<Rightarrow> rcon \<Rightarrow> u8array \<Rightarrow> completion \<times> rcon" where
  "readLoop dec s data' =
     (if length (bytes data') = 0 then (LoopEnded, s)
      else
        (case getInt32 (buffer data') 0 of
           None \<Rightarrow> (Threw RangeError, s)
         | Some len \<Rightarrow>
             if len = 0 then (Returned, s)
             else if len \<ge> 10 \<and> int (length (bytes data')) \<ge> len + 4 then
               (case (getInt32 (buffer data') 4, getInt32 (buffer data') 8) of
                  (Some id', Some type') \<Rightarrow>
                    readLoop dec
                      (dispatch dec s id' type' (slice_u8 (bytes data') 12 (12 + len - 10)))
                      (fresh (slice_from (bytes data') (4 + len)))
                | _ \<Rightarrow> (Threw RangeError, s))
             else (Broke, s\<lparr>outstandingData := Some (bytes data')\<rparr>)))"
  by pat_completeness auto
termination
proof (relation "measure (\<lambda>(dec, s, d). length (bytes d))")
  show "wf (measure (\<lambda>(dec, s, d). length (bytes d)))" by simp
next
  fix dec :: "byte list \<Rightarrow> string" and s :: rcon and data' :: u8array and len :: int
  assume "length (bytes data') \<noteq> 0" and "len \<noteq> 0"
    and "10 \<le> len \<and> len + 4 \<le> int (length (bytes data'))"
  then have "length (slice_from (bytes data') (4 + len)) < length (bytes data')"
    by (auto simp: slice_from_def rel_index_def min_def)
  then show "\<And>x y x2 x2a. ((dec, dispatch dec s x2 x2a (slice_u8 (bytes data') 12 (12 + len - 10)),
        fresh (slice_from (bytes data') (4 + len))), dec, s, data')
      \<in> measure (\<lambda>(dec, s, d). length (bytes d))"
    by (simp add: fresh_def)
qed

declare readLoop.simps [simp del]

text \<open>
  \<^verbatim>\<open>readChunk(data)\<close>: bytes left over by the previous call are put in front of the chunk
  (\<^verbatim>\<open>concat\<close> makes a new array), then the loop runs.
\<close>

definition readChunk :: "(byte list \<Rightarrow> string) \<Rightarrow> rcon \<Rightarrow> u8array \<Rightarrow> completion \<times> rcon" where
  "readChunk dec s chunk =
     (case outstandingData s of
        Some od \<Rightarrow>
          readLoop dec (s\<lparr>outstandingData := None\<rparr>) (fresh (concat_u8 od (bytes chunk)))
      | None \<Rightarrow> readLoop dec s chunk)"

section \<open>The read loop and teardown\<close>

text \<open>
  \<^verbatim>\<open>for await (const chunk of iterateReader(conn)) this.readChunk(chunk)\<close>: the chunks are
  read in order; an exception of \<^verbatim>\<open>readChunk\<close> leaves the loop, and so does the end of the
  stream, which is either the end of the iteration (\<open>None\<close>) or an exception of the
  transport (\<open>Some e\<close>). The result is the exception the loop ends with, if any.
\<close>

fun readChunks :: "(byte list \<Rightarrow> string) \<Rightarrow> rcon \<Rightarrow> u8array list \<Rightarrow> exn option \<Rightarrow> exn option \<times> rcon" where
  "readChunks dec s [] ending = (ending, s)"
| "readChunks dec s (chunk # chunks) ending =
     (case readChunk dec s chunk of
        (Threw e, s') \<Rightarrow> (Some e, s')
      | (_, s') \<Rightarrow> readChunks dec s' chunks ending)"

text \<open>\<^verbatim>\<open>this.requests.forEach((request) => request.reject(e))\<close>, in the order of the map.\<close>

definition reject_all :: "(int \<times> request) list \<Rightarrow> exn \<Rightarrow> event list" where
  "reject_all rs e = map (\<lambda>(k, request). Reject (promise request) e) rs"

text \<open>The \<^verbatim>\<open>finally\<close> block of \<^verbatim>\<open>read\<close>; \<open>c\<close> is the connection the loop was started on.\<close>

definition read_finally :: "rcon \<Rightarrow> nat option \<Rightarrow> rcon" where
  "read_finally s c =
     (if conn s = c then
        (let s1 = s\<lparr>conn := None\<rparr>;
             s2 = authed_reject s1 RconConnectionClosedException;
             s3 = s2\<lparr>authed := None\<rparr>;
             s4 = s3\<lparr>effects := effects s3 @ reject_all (requests s3) RconConnectionClosedException\<rparr>
         in s4\<lparr>requests := []\<rparr>)
      else s)"

definition read :: "(byte list \<Rightarrow> string) \<Rightarrow> rcon \<Rightarrow> u8array list \<Rightarrow> exn option \<Rightarrow> exn option \<times> rcon" where
  "read dec s chunks ending =
     (let c = conn s;
          (r, s') = readChunks dec s chunks ending
      in (r, read_finally s' c))"

text \<open>\<^verbatim>\<open>disconnect()\<close>.\<close>

definition disconnect :: "rcon \<Rightarrow> rcon" where
  "disconnect s =
     (let s1 = (case conn s of None \<Rightarrow> s | Some c \<Rightarrow> s\<lparr>effects := effects s @ [Close c]\<rparr>);
          s2 = s1\<lparr>conn := None\<rparr>;
          s3 = s2\<lparr>authed := None\<rparr>;
          s4 = s3\<lparr>effects := effects s3 @ reject_all (requests s3) (Error ''read EOF'')\<rparr>
      in s4\<lparr>requests := []\<rparr>)"

section \<open>Writing: \<^verbatim>\<open>sendData\<close> and \<^verbatim>\<open>send\<close>\<close>

text \<open>
  The frame that \<^verbatim>\<open>sendData\<close> builds in \<^verbatim>\<open>sendBuffer\<close> from the four id bytes, the encoded
  text and the packet type. The writes are those of the source, in its order.
\<close>

definition sendBuffer :: "byte list \<Rightarrow> byte list \<Rightarrow> int \<Rightarrow> byte list option" where
  "sendBuffer id' dataBuffer packetType =
     (let dataLength = length dataBuffer
      in do {
        b1 \<leftarrow> setInt32 (replicate (dataLength + 14) 0) 0 (int dataLength + 10);
        b2 \<leftarrow> set_u8 b1 id' 4;
        b3 \<leftarrow> setInt32 b2 8 packetType;
        b4 \<leftarrow> set_u8 b3 dataBuffer 12;
        setInt16 b4 (dataLength + 12) 0
      })"

text \<open>
  The outcome of one \<^verbatim>\<open>conn.write\<close>, decided by the transport. \<open>enc\<close> is
  \<^verbatim>\<open>new TextEncoder().encode\<close>. \<^verbatim>\<open>this.conn?.write(sendBuffer)\<close> writes nothing and
  raises nothing when there is no connection.
\<close>

datatype write_outcome = WriteOk | WriteFails exn

definition sendData ::
  "(string \<Rightarrow> byte list) \<Rightarrow> rcon \<Rightarrow> byte list \<Rightarrow> string \<Rightarrow> int \<Rightarrow> write_outcome \<Rightarrow> exn option \<times> rcon" where
  "sendData enc s id' data' packetType w =
     (case sendBuffer id' (enc data') packetType of
        None \<Rightarrow> (Some RangeError, s)
      | Some buf \<Rightarrow>
          (case conn s of
             None \<Rightarrow> (None, s)
           | Some c \<Rightarrow>
               (case w of
                  WriteOk \<Rightarrow> (None, s\<lparr>effects := effects s @ [Write c buf]\<rparr>)
                | WriteFails e \<Rightarrow> (Some e, s))))"

text \<open>The \<^verbatim>\<open>catch\<close> block of \<^verbatim>\<open>send\<close>: \<^verbatim>\<open>this.requests.get(idNumber)?.reject(e)\<close>.\<close>

definition send_catch :: "rcon \<Rightarrow> int \<Rightarrow> exn \<Rightarrow> rcon" where
  "send_catch s idNumber e =
     (case map_of (requests s) idNumber of
        None \<Rightarrow> s
      | Some request \<Rightarrow> s\<lparr>effects := effects s @ [Reject (promise request) e]\<rparr>)"

text \<open>
  \<^verbatim>\<open>send(data, packetType)\<close> from the point where \<^verbatim>\<open>await this.connect()\<close> has returned.
  \<open>id'\<close> are the four bytes of \<^verbatim>\<open>crypto.getRandomValues\<close>, \<open>p\<close> names the promise that
  is returned to the caller, \<open>w1\<close> and \<open>w2\<close> are the outcomes of the two writes. The result
  is the exception that \<^verbatim>\<open>send\<close> itself raises, if any, and the new state.
\<close>

definition send ::
  "(string \<Rightarrow> byte list) \<Rightarrow> rcon \<Rightarrow> byte list \<Rightarrow> nat \<Rightarrow> string \<Rightarrow> int
     \<Rightarrow> write_outcome \<Rightarrow> write_outcome \<Rightarrow> exn option \<times> rcon" where
  "send enc s id' p data' packetType w1 w2 =
     (case getInt32 id' 0 of
        None \<Rightarrow> (Some RangeError, s)
      | Some idNumber \<Rightarrow>
          (let s1 = s\<lparr>requests := AList.update idNumber \<lparr>data = [], promise = p\<rparr> (requests s)\<rparr>
           in case sendData enc s1 id' data' packetType w1 of
                (Some e, s2) \<Rightarrow> (None, send_catch s2 idNumber e)
              | (None, s2) \<Rightarrow>
                  (case sendData enc s2 id' [] RESPONSE_VALUE w2 of
                     (Some e, s3) \<Rightarrow> (None, send_catch s3 idNumber e)
                   | (None, s3) \<Rightarrow> (None, s3))))"

text \<open>\<^verbatim>\<open>sendCmd(cmd)\<close>.\<close>

definition sendCmd ::
  "(string \<Rightarrow> byte list) \<Rightarrow> rcon \<Rightarrow> byte list \<Rightarrow> nat \<Rightarrow> string
     \<Rightarrow> write_outcome \<Rightarrow> write_outcome \<Rightarrow> exn option \<times> rcon" where
  "sendCmd enc s id' p cmd w1 w2 = send enc s id' p cmd COMMAND w1 w2"

section \<open>Notions used to state the properties\<close>

text \<open>
  A decoded packet is its id, its type and its payload. \<open>dispatch_all\<close> routes a sequence of
  packets in order; \<open>responses id' payloads\<close> are the \<^verbatim>\<open>RESPONSE_VALUE\<close> packets with the given
  id and payloads.
\<close>

definition dispatch_packet :: "(byte list \<Rightarrow> string) \<Rightarrow> rcon \<Rightarrow> int \<times> int \<times> byte list \<Rightarrow> rcon" where
  "dispatch_packet dec s pk = (case pk of (id', type', payload) \<Rightarrow> dispatch dec s id' type' payload)"

definition dispatch_all :: "(byte list \<Rightarrow> string) \<Rightarrow> rcon \<Rightarrow> (int \<times> int \<times> byte list) list \<Rightarrow> rcon" where
  "dispatch_all dec s pks = foldl (dispatch_packet dec) s pks"

definition responses :: "int \<Rightarrow> byte list list \<Rightarrow> (int \<times> int \<times> byte list) list" where
  "responses id' payloads = map (\<lambda>payload. (id', RESPONSE_VALUE, payload)) payloads"

text \<open>
  The packets that the loop of \<^verbatim>\<open>readChunk\<close> decodes from its data, in order, together with the
  way the loop ends and the bytes that are left at that point: the loop without the routing.
\<close>

function scan :: "u8array \<Rightarrow> (int \<times> int \<times> byte list) list \<times> completion \<times> byte list" where
  "scan data' =
     (if length (bytes data') = 0 then ([], LoopEnded, [])
      else
        (case getInt32 (buffer data') 0 of
           None \<Rightarrow> ([], Threw RangeError, bytes data')
         | Some len \<Rightarrow>
             if len = 0 then ([], Returned, bytes data')
             else if len \<ge> 10 \<and> int (length (bytes data')) \<ge> len + 4 then
               (case (getInt32 (buffer data') 4, getInt32 (buffer data') 8) of
                  (Some id', Some type') \<Rightarrow>
                    (case scan (fresh (slice_from (bytes data') (4 + len))) of
                       (pks, c, rest) \<Rightarrow>
                         ((id', type', slice_u8 (bytes data') 12 (12 + len - 10)) # pks, c, rest))
                | _ \<Rightarrow> ([], Threw RangeError, bytes data'))
             else ([], Broke, bytes data')))"
  by pat_completeness auto
termination
proof (relation "measure (\<lambda>d. length (bytes d))")
  show "wf (measure (\<lambda>d. length (bytes d)))" by simp
next
  fix data' :: u8array and len :: int
  assume "length (bytes data') \<noteq> 0" and "len \<noteq> 0"
    and "10 \<le> len \<and> len + 4 \<le> int (length (bytes data'))"
  then have "length (slice_from (bytes data') (4 + len)) < length (bytes data')"
    by (auto simp: slice_from_def rel_index_def min_def)
  then show "(fresh (slice_from (bytes data') (4 + len)), data') \<in> measure (\<lambda>d. length (bytes d))"
    by (simp add: fresh_def)
qed

declare scan.simps [simp del]

text \<open>
  The data that the loop of \<^verbatim>\<open>readChunk\<close> starts with, given the bytes carried over and the
  chunk; what the loop leaves in \<^verbatim>\<open>outstandingData\<close>, given how it ended; and the state it
  leaves, given the state after routing.
\<close>

definition joined :: "byte list option \<Rightarrow> u8array \<Rightarrow> u8array" where
  "joined od chunk = (case od of Some od' \<Rightarrow> fresh (concat_u8 od' (bytes chunk)) | None \<Rightarrow> chunk)"

definition carry :: "completion \<Rightarrow> byte list \<Rightarrow> byte list option" where
  "carry c rest = (if c = Broke then Some rest else None)"

definition finish :: "completion \<Rightarrow> byte list \<Rightarrow> rcon \<Rightarrow> rcon" where
  "finish c rest s = (if c = Broke then s\<lparr>outstandingData := Some rest\<rparr> else s)"

text \<open>
  Bytes that do not start with a complete packet: what \<^verbatim>\<open>readChunk\<close> carries over.
\<close>

definition incomplete :: "byte list \<Rightarrow> bool" where
  "incomplete od =
     (od \<noteq> [] \<and>
      (case getInt32 od 0 of
         None \<Rightarrow> True
       | Some len \<Rightarrow> len \<noteq> 0 \<and> \<not> (10 \<le> len \<and> len + 4 \<le> int (length od))))"

text \<open>
  Feeding chunks one by one, without the routing: the packets decoded and the bytes carried
  over at the end, or \<open>None\<close> when some call ends by the \<^verbatim>\<open>return\<close> on a zero length or by
  an exception.
\<close>

fun feed :: "byte list option \<Rightarrow> u8array list \<Rightarrow> ((int \<times> int \<times> byte list) list \<times> byte list option) option" where
  "feed od [] = Some ([], od)"
| "feed od (chunk # chunks) =
     (case scan (joined od chunk) of
        (pks, c, rest) \<Rightarrow>
          if c = LoopEnded \<or> c = Broke then
            (case feed (carry c rest) chunks of
               None \<Rightarrow> None
             | Some (qs, od') \<Rightarrow> Some (pks @ qs, od'))
          else None)"

text \<open>
  A run of \<^verbatim>\<open>readChunk\<close> over chunks in which every call ends by the loop condition or by
  the \<^verbatim>\<open>break\<close>, and the packets that such calls dispatch, in order.
\<close>

fun clean_run :: "(byte list \<Rightarrow> string) \<Rightarrow> rcon \<Rightarrow> u8array list \<Rightarrow> bool" where
  "clean_run dec s [] = True"
| "clean_run dec s (chunk # chunks) =
     (case readChunk dec s chunk of
        (c, s') \<Rightarrow> (c = LoopEnded \<or> c = Broke) \<and> clean_run dec s' chunks)"

fun dispatched :: "byte list option \<Rightarrow> u8array list \<Rightarrow> (int \<times> int \<times> byte list) list" where
  "dispatched od [] = []"
| "dispatched od (chunk # chunks) =
     (case scan (joined od chunk) of
        (pks, c, rest) \<Rightarrow>
          pks @ (case c of Threw e \<Rightarrow> [] | _ \<Rightarrow> dispatched (carry c rest) chunks))"

text \<open>
  Concrete inputs: a decoder and an encoder that take each byte as one character (as the text
  decoder and encoder do on ASCII), and clients with one request pending under id 5, with two
  requests pending, with a request pending under id -1, and with two bytes carried over.
\<close>

definition ascii_bytes :: "string \<Rightarrow> byte list" where
  "ascii_bytes cs = map (\<lambda>c. of_nat (of_char c)) cs"

definition ascii_text :: "byte list \<Rightarrow> string" where
  "ascii_text bs = map (\<lambda>b. char_of (unat b)) bs"

definition s_one :: rcon where
  "s_one = \<lparr>authed = Some 0, conn = Some 3, outstandingData = None,
             requests = [(5, \<lparr>data = [], promise = 7\<rparr>)], effects = []\<rparr>"

definition s_two :: rcon where
  "s_two = \<lparr>authed = Some 0, conn = Some 3, outstandingData = None,
             requests = [(5, \<lparr>data = [], promise = 7\<rparr>), (9, \<lparr>data = [7], promise = 8\<rparr>)],
             effects = []\<rparr>"

definition s_minus_one :: rcon where
  "s_minus_one = \<lparr>authed = Some 0, conn = Some 3, outstandingData = None,
                   requests = [(-1, \<lparr>data = [], promise = 7\<rparr>)], effects = []\<rparr>"

definition s_carry :: rcon where
  "s_carry = s_one\<lparr>outstandingData := Some [0, 0]\<rparr>"

text \<open>
  The frame of a \<^verbatim>\<open>RESPONSE_VALUE\<close> packet with id 5 and payload \<open>[72, 105]\<close>, the frame of the
  marker packet with id 5, and ways to cut their bytes into chunks.
\<close>

definition frame_hi :: "byte list" where
  "frame_hi = [12, 0, 0, 0, 5, 0, 0, 0, 0, 0, 0, 0, 72, 105, 0, 0]"

definition frame_end :: "byte list" where
  "frame_end = [14, 0, 0, 0, 5, 0, 0, 0, 0, 0, 0, 0, 0, 1, 0, 0, 0, 0]"

definition chunk_a :: u8array where
  "chunk_a = \<lparr>bytes = [12, 0, 0, 0, 5, 0], spare = [9, 9]\<rparr>"

definition chunk_b :: u8array where
  "chunk_b = fresh [0, 0, 0, 0, 0, 0, 72, 105, 0, 0, 14, 0, 0, 0, 5, 0, 0]"

definition chunk_c :: u8array where
  "chunk_c = fresh [0, 0, 0, 0, 0, 0, 1, 0, 0, 0, 0]"

definition chunk_whole :: u8array where
  "chunk_whole = fresh (frame_hi @ frame_end)"

definition chunk_zero :: u8array where
  "chunk_zero = fresh [0, 0, 0, 0]"

definition chunk_frame_end :: u8array where
  "chunk_frame_end = fresh frame_end"

definition chunk_zero_whole :: u8array where
  "chunk_zero_whole = fresh ([0, 0, 0, 0] @ frame_end)"

definition chunk_split_a :: u8array where
  "chunk_split_a = \<lparr>bytes = frame_hi @ [14, 0], spare = [9, 9]\<rparr>"

definition chunk_split_b :: u8array where
  "chunk_split_b = fresh [0, 0, 5, 0, 0, 0, 0, 0, 0, 0, 0, 1, 0, 0, 0, 0]"

section \<open>Bytes and integers\<close>

lemma unat_byte_of_nat: "unat (of_nat (n mod 256) :: byte) = n mod 256"
  by (simp add: unat_of_nat)

lemma length_le32 [simp]: "length (le32 v) = 4"
  by (simp add: le32_def Let_def)

lemma length_le16 [simp]: "length (le16 v) = 2"
  by (simp add: le16_def Let_def)

lemma le16_zero [simp]: "le16 0 = [0, 0]"
  by (simp add: le16_def)

lemma bytes_of_nat32:
  fixes u :: nat
  assumes "u < 2 ^ 32"
  shows "u mod 256 + 256 * (u div 256 mod 256 + 256 * (u div 65536 mod 256 + 256 * (u div 16777216 mod 256))) = u"
proof -
  have d: "u div 16777216 mod 256 = u div 16777216"
    using assms by (simp add: less_mult_imp_div_less)
  have c: "u div 65536 mod 256 + 256 * (u div 16777216) = u div 65536"
    using mod_mult_div_eq [of "u div 65536" 256] by (simp add: div_mult2_eq [symmetric])
  have b: "u div 256 mod 256 + 256 * (u div 65536) = u div 256"
    using mod_mult_div_eq [of "u div 256" 256] by (simp add: div_mult2_eq [symmetric])
  have a: "u mod 256 + 256 * (u div 256) = u"
    by simp
  show ?thesis
    unfolding d c b a ..
qed

text \<open>Reading back the four bytes written for \<open>v\<close> gives \<open>v\<close> modulo \<open>2 ^ 32\<close>.\<close>

lemma le_nat_le32: "le_nat (le32 v) = nat (v mod 2 ^ 32)"
proof -
  define u where "u = nat (v mod 2 ^ 32)"
  have "u < 2 ^ 32"
    by (simp add: u_def nat_less_iff)
  from bytes_of_nat32 [OF this] have "le_nat [of_nat (u mod 256), of_nat (u div 256 mod 256),
          of_nat (u div 65536 mod 256), of_nat (u div 16777216 mod 256)] = u"
    by (simp only: le_nat_def foldr.simps o_apply unat_byte_of_nat id_apply mult_0_right add_0_right)
  then show ?thesis
    by (simp only: le32_def Let_def u_def)
qed

lemma to_int32_nat_mod:
  assumes "- (2 ^ 31) \<le> v" "v < 2 ^ 31"
  shows "to_int32 (nat (v mod 2 ^ 32)) = v"
proof (cases "0 \<le> v")
  case True
  with assms have "v mod 2 ^ 32 = v" by simp
  with True assms show ?thesis by (simp add: to_int32_def)
next
  case False
  have "(v + 2 ^ 32) mod 2 ^ 32 = v + 2 ^ 32"
    using assms False by (intro mod_pos_pos_trivial) auto
  then have m: "v mod 2 ^ 32 = v + 2 ^ 32" by simp
  have "nat (v + 2 ^ 32) mod 2 ^ 32 = nat (v + 2 ^ 32)"
    using assms False by (intro mod_less) (simp add: nat_less_iff)
  with False assms show ?thesis unfolding m by (simp add: to_int32_def nat_le_iff)
qed

lemma getInt32_at:
  assumes "length pre = off" "length w = 4"
  shows "getInt32 (pre @ w @ post) off = Some (to_int32 (le_nat w))"
  using assms by (simp add: getInt32_def)

lemma getInt32_le32:
  assumes "length pre = off" "- (2 ^ 31) \<le> v" "v < 2 ^ 31"
  shows "getInt32 (pre @ le32 v @ post) off = Some v"
proof -
  have "getInt32 (pre @ le32 v @ post) off = Some (to_int32 (le_nat (le32 v)))"
    using assms(1) by (simp add: getInt32_at)
  then show ?thesis
    using to_int32_nat_mod [OF assms(2,3)] by (simp add: le_nat_le32)
qed

lemma getInt32_append: "off + 4 \<le> length xs \<Longrightarrow> getInt32 (xs @ ys) off = getInt32 xs off"
  by (simp add: getInt32_def)

lemma getInt32_in_view:
  "off + 4 \<le> length (bytes d) \<Longrightarrow> \<exists>v. getInt32 (buffer d) off = Some v \<and> getInt32 (bytes d) off = Some v"
  by (simp add: getInt32_def buffer_def)

lemma getInt32_minus_one: "getInt32 [255, 255, 255, 255] 0 = Some (- 1)"
  by (simp add: getInt32_def le_nat_def to_int32_def)

lemma getInt32_zero: "getInt32 [0, 0, 0, 0] 0 = Some 0"
  by (simp add: getInt32_def le_nat_def to_int32_def)

lemma getInt32_five: "getInt32 [5, 0, 0, 0] 0 = Some 5"
  by (simp add: getInt32_def le_nat_def to_int32_def)

lemma slice_from_append:
  "0 \<le> k \<Longrightarrow> k \<le> int (length xs) \<Longrightarrow> slice_from (xs @ ys) k = slice_from xs k @ ys"
  by (auto simp: slice_from_def rel_index_def min_def nat_le_iff)

lemma slice_u8_append:
  "0 \<le> a \<Longrightarrow> 0 \<le> b \<Longrightarrow> b \<le> int (length xs) \<Longrightarrow> slice_u8 (xs @ ys) a b = slice_u8 xs a b"
  by (auto simp: slice_u8_def rel_index_def min_def Let_def)

section \<open>The frame built by \<^verbatim>\<open>sendData\<close>\<close>

lemma sendBuffer_layout:
  assumes "length id' = 4"
  shows "sendBuffer id' dataBuffer packetType =
         Some (le32 (int (length dataBuffer) + 10) @ id' @ le32 packetType @ dataBuffer @ [0, 0])"
  using assms
  by (simp add: sendBuffer_def Let_def setInt32_def set_u8_def setInt16_def overlay_def
      replicate_add [symmetric])

lemma sendBuffer_hi: "sendBuffer [5, 0, 0, 0] [72, 105] 0 = Some frame_hi"
  by (simp add: sendBuffer_layout le32_def frame_hi_def)

text \<open>
  C4. Given the four id bytes, a payload and a packet type, \<^verbatim>\<open>sendData\<close> builds a frame of
  \<open>length payload + 14\<close> bytes: the little-endian bytes of \<open>length payload + 10\<close>, the id bytes
  at offset 4, the little-endian bytes of the type at offset 8, the payload at offset 12, and
  two zero bytes at the end. Read back as 32-bit signed little-endian integers, the length
  field is \<open>length payload + 10\<close> (for a payload shorter than \<open>2 ^ 31 - 10\<close> bytes, so that the
  length fits the field), the field at offset 4 is the number of the id bytes, and the field at
  offset 8 is the type (for a type that is a 32-bit signed integer).
\<close>

theorem sendBuffer_frame_layout:
  assumes "length id' = 4"
  shows "\<exists>frame. sendBuffer id' payload packetType = Some frame
     \<and> frame = le32 (int (length payload) + 10) @ id' @ le32 packetType @ payload @ [0, 0]
     \<and> length frame = length payload + 14
     \<and> (int (length payload) + 10 < 2 ^ 31 \<longrightarrow> getInt32 frame 0 = Some (int (length payload) + 10))
     \<and> getInt32 frame 4 = getInt32 id' 0
     \<and> (- (2 ^ 31) \<le> packetType \<and> packetType < 2 ^ 31 \<longrightarrow> getInt32 frame 8 = Some packetType)
     \<and> take (length payload) (drop 12 frame) = payload
     \<and> drop (length payload + 12) frame = [0, 0]"
proof -
  let ?n = "int (length payload) + 10"
  let ?frame = "le32 ?n @ id' @ le32 packetType @ payload @ [0, 0]"
  have "sendBuffer id' payload packetType = Some ?frame"
    using assms by (rule sendBuffer_layout)
  moreover have "length ?frame = length payload + 14"
    using assms by simp
  moreover have "getInt32 ?frame 0 = Some ?n" if "?n < 2 ^ 31"
    using getInt32_le32 [of "[]" 0 ?n] that by simp
  moreover have "getInt32 ?frame 4 = getInt32 id' 0"
    using assms getInt32_at [of "le32 ?n" 4 id'] getInt32_at [of "[]" 0 id' "[]"] by simp
  moreover have "getInt32 ?frame 8 = Some packetType" if "- (2 ^ 31) \<le> packetType \<and> packetType < 2 ^ 31"
    using getInt32_le32 [of "le32 ?n @ id'" 8 packetType] that assms by simp
  moreover have "take (length payload) (drop 12 ?frame) = payload"
    using assms by simp
  moreover have "drop (length payload + 12) ?frame = [0, 0]"
    using assms by simp
  ultimately show ?thesis by blast
qed

theorem sendBuffer_frame_layout_witness:
  "length [5, 0, 0, 0 :: byte] = 4
   \<and> sendBuffer [5, 0, 0, 0] [72, 105] 0 = Some [12, 0, 0, 0, 5, 0, 0, 0, 0, 0, 0, 0, 72, 105, 0, 0]
   \<and> int (length [72, 105 :: byte]) + 10 < 2 ^ 31
   \<and> getInt32 [12, 0, 0, 0, 5, 0, 0, 0, 0, 0, 0, 0, 72, 105, 0, 0] 0 = Some 12
   \<and> getInt32 [12, 0, 0, 0, 5, 0, 0, 0, 0, 0, 0, 0, 72, 105, 0, 0] 4 = Some 5
   \<and> - (2 ^ 31) \<le> (0 :: int) \<and> (0 :: int) < 2 ^ 31
   \<and> getInt32 [12, 0, 0, 0, 5, 0, 0, 0, 0, 0, 0, 0, 72, 105, 0, 0] 8 = Some 0"
  using sendBuffer_frame_layout [of "[5, 0, 0, 0]" "[72, 105]" 0]
  by (simp add: le32_def getInt32_five)

section \<open>Routing of decoded packets\<close>

lemma dispatch_all_Nil [simp]: "dispatch_all dec s [] = s"
  by (simp add: dispatch_all_def)

lemma dispatch_all_Cons [simp]:
  "dispatch_all dec s ((i, t, p) # pks) = dispatch_all dec (dispatch dec s i t p) pks"
  by (simp add: dispatch_all_def dispatch_packet_def)

lemma dispatch_all_append:
  "dispatch_all dec s (xs @ ys) = dispatch_all dec (dispatch_all dec s xs) ys"
  by (simp add: dispatch_all_def)

lemma dispatch_fragment:
  assumes "id' \<noteq> -1" "map_of (requests s) id' = Some r" "p \<noteq> FrameBuffer"
  shows "dispatch dec s id' RESPONSE_VALUE p =
         s\<lparr>requests := AList.update id' (r\<lparr>data := data r @ p\<rparr>) (requests s)\<rparr>"
  using assms
  by (auto simp: dispatch_def RESPONSE_VALUE_def RESPONSE_AUTH_def equals_def concat_u8_def)

lemma dispatch_sentinel:
  assumes "id' \<noteq> -1" "map_of (requests s) id' = Some r"
  shows "dispatch dec s id' RESPONSE_VALUE FrameBuffer =
         s\<lparr>requests := AList.delete id' (requests s),
           effects := effects s @ [Resolve (promise r) (dec (data r))]\<rparr>"
  using assms
  by (auto simp: dispatch_def RESPONSE_VALUE_def RESPONSE_AUTH_def equals_def)

text \<open>
  Fragments that differ from the marker only grow the accumulated bytes of their request; the
  other entries of the map, and everything else, stay as they are.
\<close>

lemma fragments_accumulate:
  assumes "id' \<noteq> -1" "map_of (requests s) id' = Some r" "\<forall>p \<in> set ps. p \<noteq> FrameBuffer"
  shows "\<exists>al. dispatch_all dec s (responses id' ps) = s\<lparr>requests := al\<rparr>
            \<and> map_of al id' = Some (r\<lparr>data := data r @ concat ps\<rparr>)
            \<and> AList.delete id' al = AList.delete id' (requests s)"
  using assms
proof (induction ps arbitrary: s r)
  case Nil
  then show ?case by (intro exI [of _ "requests s"]) (simp add: responses_def)
next
  case (Cons p ps)
  let ?r1 = "r\<lparr>data := data r @ p\<rparr>"
  let ?s1 = "s\<lparr>requests := AList.update id' ?r1 (requests s)\<rparr>"
  have step: "dispatch dec s id' RESPONSE_VALUE p = ?s1"
    using Cons.prems by (simp add: dispatch_fragment)
  have look: "map_of (requests ?s1) id' = Some ?r1"
    by (simp add: update_conv')
  from Cons.IH [OF Cons.prems(1) look] Cons.prems(3)
  obtain al where al: "dispatch_all dec ?s1 (responses id' ps) = ?s1\<lparr>requests := al\<rparr>"
      "map_of al id' = Some (?r1\<lparr>data := data ?r1 @ concat ps\<rparr>)"
      "AList.delete id' al = AList.delete id' (requests ?s1)"
    by auto
  have "dispatch_all dec s (responses id' (p # ps)) = dispatch_all dec ?s1 (responses id' ps)"
    using step by (simp add: responses_def)
  with al show ?case
    by (intro exI [of _ al]) (simp add: delete_update_same)
qed

text \<open>
  C1 (amended). For every pending request id other than -1: dispatching \<open>N\<close>
  \<^verbatim>\<open>RESPONSE_VALUE\<close> packets with that id whose payloads all differ from the marker
  \<open>[0, 1, 0, 0]\<close>, followed by one whose payload is the marker, calls the request's
  \<^verbatim>\<open>resolve\<close> with the text decoding of the bytes accumulated before (empty for a new
  request) followed by the \<open>N\<close> payloads in arrival order, removes the entry from the map, and
  changes nothing else. This holds for every \<open>N\<close>.
\<close>

theorem sentinel_resolves_with_concatenation:
  assumes "id' \<noteq> -1" "map_of (requests s) id' = Some r" "\<forall>p \<in> set ps. p \<noteq> FrameBuffer"
  shows "dispatch_all dec s (responses id' (ps @ [FrameBuffer])) =
           s\<lparr>requests := AList.delete id' (requests s),
             effects := effects s @ [Resolve (promise r) (dec (data r @ concat ps))]\<rparr>
         \<and> map_of (requests (dispatch_all dec s (responses id' (ps @ [FrameBuffer])))) id' = None"
proof -
  from fragments_accumulate [OF assms, of dec]
  obtain al where al: "dispatch_all dec s (responses id' ps) = s\<lparr>requests := al\<rparr>"
      "map_of al id' = Some (r\<lparr>data := data r @ concat ps\<rparr>)"
      "AList.delete id' al = AList.delete id' (requests s)"
    by auto
  have "dispatch_all dec s (responses id' (ps @ [FrameBuffer]))
        = dispatch dec (s\<lparr>requests := al\<rparr>) id' RESPONSE_VALUE FrameBuffer"
    using al(1) by (simp add: responses_def dispatch_all_append)
  also have "\<dots> = s\<lparr>requests := AList.delete id' (requests s),
             effects := effects s @ [Resolve (promise r) (dec (data r @ concat ps))]\<rparr>"
    using assms(1) al(2,3) by (simp add: dispatch_sentinel)
  finally show ?thesis by (simp add: delete_conv')
qed

theorem sentinel_resolves_with_concatenation_witness:
  "(5::int) \<noteq> -1 \<and> map_of (requests s_one) 5 = Some \<lparr>data = [], promise = 7\<rparr>
   \<and> [72] \<noteq> FrameBuffer \<and> [105, 33] \<noteq> FrameBuffer \<and> [0, 1] \<noteq> FrameBuffer
   \<and> dispatch_all ascii_text s_one (responses 5 ([[72], [105, 33], [0, 1]] @ [FrameBuffer])) =
        s_one\<lparr>requests := [], effects := [Resolve 7 (ascii_text [72, 105, 33, 0, 1])]\<rparr>"
  using sentinel_resolves_with_concatenation
    [of 5 s_one "\<lparr>data = [], promise = 7\<rparr>" "[[72], [105, 33], [0, 1]]" ascii_text]
  by (simp add: s_one_def FrameBuffer_def)

text \<open>
  The claim as stated, for every pending id, fails at id -1: with a request pending under -1
  and no fragment before it (\<open>N = 0\<close>), the marker packet is routed to the authentication
  slot; the request is neither resolved nor removed.
\<close>

theorem sentinel_at_minus_one_counterexample:
  "map_of (requests s_minus_one) (-1) = Some \<lparr>data = [], promise = 7\<rparr>
   \<and> dispatch_all ascii_text s_minus_one (responses (-1) ([] @ [FrameBuffer])) =
        s_minus_one\<lparr>effects := [AuthReject 0 BadRconPasswordException]\<rparr>
   \<and> dispatch_all ascii_text s_minus_one (responses (-1) ([] @ [FrameBuffer])) \<noteq>
        s_minus_one\<lparr>requests := AList.delete (-1) (requests s_minus_one),
          effects := effects s_minus_one @ [Resolve 7 (ascii_text ([] @ concat []))]\<rparr>"
  by (simp add: s_minus_one_def responses_def dispatch_def authed_reject_def)

text \<open>
  C6. Dispatching a packet with id -1, whatever its type and payload, calls \<^verbatim>\<open>reject\<close> of the
  authentication slot (when there is one) with \<^verbatim>\<open>BadRconPasswordException\<close> and does nothing
  else: the map of pending requests is the same, and no request is resolved or rejected.
\<close>

theorem minus_one_rejects_authentication:
  "requests (dispatch dec s (-1) type' payload) = requests s
   \<and> conn (dispatch dec s (-1) type' payload) = conn s
   \<and> authed (dispatch dec s (-1) type' payload) = authed s
   \<and> outstandingData (dispatch dec s (-1) type' payload) = outstandingData s
   \<and> effects (dispatch dec s (-1) type' payload) =
       effects s @ (case authed s of None \<Rightarrow> [] | Some a \<Rightarrow> [AuthReject a BadRconPasswordException])"
  by (simp add: dispatch_def authed_reject_def split: option.splits)

text \<open>
  C9. A packet whose id is not -1, that is not the authentication response (id 0 with type
  \<^verbatim>\<open>RESPONSE_AUTH\<close>), and whose id has no entry in the map of pending requests is dropped:
  the client is exactly as before and nothing is called.
\<close>

theorem unknown_id_is_dropped:
  "id' \<noteq> -1 \<Longrightarrow> \<not> (id' = 0 \<and> type' = RESPONSE_AUTH) \<Longrightarrow> map_of (requests s) id' = None
   \<Longrightarrow> dispatch dec s id' type' payload = s"
  by (auto simp add: dispatch_def)

theorem unknown_id_is_dropped_witness:
  "(7::int) \<noteq> -1 \<and> \<not> ((7::int) = 0 \<and> (0::int) = RESPONSE_AUTH) \<and> map_of (requests s_one) 7 = None
   \<and> dispatch ascii_text s_one 7 0 [1, 2] = s_one"
  using unknown_id_is_dropped [of 7 0 s_one ascii_text "[1, 2]"]
  by (simp add: s_one_def RESPONSE_AUTH_def)

text \<open>Packets with id -1 only reach the authentication slot, however many there are.\<close>

lemma minus_one_packets:
  assumes "\<forall>pk \<in> set pks. fst pk = - 1"
  shows "requests (dispatch_all dec s pks) = requests s
       \<and> effects (dispatch_all dec s pks) =
           effects s @ (case authed s of
                          None \<Rightarrow> []
                        | Some a \<Rightarrow> replicate (length pks) (AuthReject a BadRconPasswordException))"
  using assms
proof (induction pks arbitrary: s)
  case Nil
  show ?case by (simp split: option.splits)
next
  case (Cons pk pks)
  obtain i t p where pk: "pk = (i, t, p)" by (cases pk)
  with Cons.prems have i: "i = - 1" by simp
  let ?s1 = "dispatch dec s (- 1) t p"
  have s1: "requests ?s1 = requests s" "authed ?s1 = authed s"
    "effects ?s1 = effects s @ (case authed s of None \<Rightarrow> [] | Some a \<Rightarrow> [AuthReject a BadRconPasswordException])"
    by (simp_all add: dispatch_def authed_reject_def split: option.splits)
  from Cons.IH [of ?s1] Cons.prems s1 show ?case
    by (simp add: pk i replicate_append_same split: option.splits)
qed

section \<open>Sending\<close>

lemma send_registers:
  assumes "getInt32 id' 0 = Some idNumber"
  shows "requests (snd (send enc s id' p cmd packetType w1 w2)) =
         AList.update idNumber \<lparr>data = [], promise = p\<rparr> (requests s)"
  using assms
  by (auto simp: send_def sendData_def send_catch_def Let_def
      split: option.splits write_outcome.splits prod.splits)

text \<open>
  C10. The request id is the 32-bit signed number of four random bytes, so every 32-bit
  signed value can come up, 0 and -1 among them. When the bytes are \<open>[255, 255, 255, 255]\<close>,
  \<^verbatim>\<open>send\<close> registers the request under -1; every packet with id -1 is then routed to the
  authentication slot (\<^verbatim>\<open>reject\<close> with \<^verbatim>\<open>BadRconPasswordException\<close>), whatever its type and
  payload: the map of pending requests stays as it is and no request is resolved, so the
  marker never resolves that command.
\<close>

theorem random_id_minus_one_goes_to_authentication:
  "(\<forall>v. - (2 ^ 31) \<le> v \<and> v < 2 ^ 31 \<longrightarrow> (\<exists>id'. length id' = 4 \<and> getInt32 id' 0 = Some v))
   \<and> getInt32 [0, 0, 0, 0] 0 = Some 0
   \<and> getInt32 [255, 255, 255, 255] 0 = Some (- 1)
   \<and> map_of (requests (snd (send enc s [255, 255, 255, 255] p cmd packetType w1 w2))) (- 1)
       = Some \<lparr>data = [], promise = p\<rparr>
   \<and> (\<forall>pks. (\<forall>pk \<in> set pks. fst pk = - 1) \<longrightarrow>
         requests (dispatch_all dec s' pks) = requests s'
       \<and> effects (dispatch_all dec s' pks) =
           effects s' @ (case authed s' of
                          None \<Rightarrow> []
                        | Some a \<Rightarrow> replicate (length pks) (AuthReject a BadRconPasswordException)))"
proof -
  have "\<exists>id'. length id' = 4 \<and> getInt32 id' 0 = Some v" if "- (2 ^ 31) \<le> v \<and> v < 2 ^ 31" for v :: int
    using getInt32_le32 [of "[]" 0 v "[]"] that by (intro exI [of _ "le32 v"]) simp
  moreover have "map_of (requests (snd (send enc s [255, 255, 255, 255] p cmd packetType w1 w2))) (- 1)
       = Some \<lparr>data = [], promise = p\<rparr>"
    by (simp add: send_registers [OF getInt32_minus_one] update_conv')
  ultimately show ?thesis
    using getInt32_zero getInt32_minus_one minus_one_packets by blast
qed

theorem random_id_minus_one_goes_to_authentication_witness:
  "- (2 ^ 31) \<le> (- 1 :: int) \<and> (- 1 :: int) < 2 ^ 31
   \<and> (\<exists>id'. length id' = 4 \<and> getInt32 id' 0 = Some (- 1))
   \<and> fst (- 1 :: int, 0 :: int, [72 :: byte]) = - 1 \<and> fst (- 1 :: int, 0 :: int, FrameBuffer) = - 1
   \<and> requests (dispatch_all ascii_text s_minus_one [(- 1, 0, [72]), (- 1, 0, FrameBuffer)])
       = requests s_minus_one
   \<and> effects (dispatch_all ascii_text s_minus_one [(- 1, 0, [72]), (- 1, 0, FrameBuffer)])
       = [AuthReject 0 BadRconPasswordException, AuthReject 0 BadRconPasswordException]"
proof -
  from random_id_minus_one_goes_to_authentication
    [of ascii_bytes s_one 8 "[]" 2 WriteOk WriteOk ascii_text s_minus_one]
  have a: "\<forall>v. - (2 ^ 31) \<le> v \<and> v < 2 ^ 31 \<longrightarrow> (\<exists>id'. length id' = 4 \<and> getInt32 id' 0 = Some v)"
    and b: "\<forall>pks. (\<forall>pk \<in> set pks. fst pk = - 1) \<longrightarrow>
         requests (dispatch_all ascii_text s_minus_one pks) = requests s_minus_one
       \<and> effects (dispatch_all ascii_text s_minus_one pks) =
           effects s_minus_one @ (case authed s_minus_one of
                          None \<Rightarrow> []
                        | Some a \<Rightarrow> replicate (length pks) (AuthReject a BadRconPasswordException))"
    by blast+
  have h: "\<forall>pk \<in> set [(- 1 :: int, 0 :: int, [72 :: byte]), (- 1, 0, FrameBuffer)]. fst pk = - 1"
    by simp
  from a [rule_format, of "- 1"] b [THEN spec, THEN mp, OF h]
  show ?thesis
    by (simp add: s_minus_one_def numeral_2_eq_2)
qed

text \<open>
  C8. When the write of the command packet fails, or the write of the empty packet that
  follows it, \<^verbatim>\<open>send\<close> calls \<^verbatim>\<open>reject\<close> of that command's request with the error of the
  write and nothing else: the connection, the authentication slot and the carried-over bytes
  are as before, the entries of all other requests are as before, and apart from the first
  packet (when its write went through) nothing is written and no other callback is called.
\<close>

theorem write_failure_rejects_only_that_request:
  assumes "length id' = 4" "getInt32 id' 0 = Some idNumber" "conn s = Some c"
    and "w1 = WriteFails e \<or> (w1 = WriteOk \<and> w2 = WriteFails e)"
  shows "\<exists>s'. send enc s id' p cmd packetType w1 w2 = (None, s')
     \<and> conn s' = conn s \<and> authed s' = authed s \<and> outstandingData s' = outstandingData s
     \<and> requests s' = AList.update idNumber \<lparr>data = [], promise = p\<rparr> (requests s)
     \<and> (\<forall>j. j \<noteq> idNumber \<longrightarrow> map_of (requests s') j = map_of (requests s) j)
     \<and> effects s' = effects s
          @ (if w1 = WriteOk
             then [Write c (le32 (int (length (enc cmd)) + 10) @ id' @ le32 packetType @ enc cmd @ [0, 0])]
             else [])
          @ [Reject p e]"
  using assms
  by (auto simp: send_def sendData_def send_catch_def Let_def sendBuffer_layout update_conv'
      split: option.splits write_outcome.splits prod.splits)

theorem write_failure_rejects_only_that_request_witness:
  "length [7, 0, 0, 0 :: byte] = 4 \<and> getInt32 [7, 0, 0, 0] 0 = Some 7 \<and> conn s_one = Some 3
   \<and> fst (send ascii_bytes s_one [7, 0, 0, 0] 8 ''status'' COMMAND (WriteFails (TransportError 0)) WriteOk) = None
   \<and> conn (snd (send ascii_bytes s_one [7, 0, 0, 0] 8 ''status'' COMMAND (WriteFails (TransportError 0)) WriteOk)) = Some 3
   \<and> authed (snd (send ascii_bytes s_one [7, 0, 0, 0] 8 ''status'' COMMAND (WriteFails (TransportError 0)) WriteOk)) = Some 0
   \<and> requests (snd (send ascii_bytes s_one [7, 0, 0, 0] 8 ''status'' COMMAND (WriteFails (TransportError 0)) WriteOk))
        = [(5, \<lparr>data = [], promise = 7\<rparr>), (7, \<lparr>data = [], promise = 8\<rparr>)]
   \<and> effects (snd (send ascii_bytes s_one [7, 0, 0, 0] 8 ''status'' COMMAND (WriteFails (TransportError 0)) WriteOk))
        = [Reject 8 (TransportError 0)]"
proof -
  have g: "getInt32 [7, 0, 0, 0] 0 = Some 7"
    by (simp add: getInt32_def le_nat_def to_int32_def)
  have c: "conn s_one = Some 3" by (simp add: s_one_def)
  from write_failure_rejects_only_that_request
    [of "[7, 0, 0, 0]" 7 s_one 3 "WriteFails (TransportError 0)" "TransportError 0" WriteOk
      ascii_bytes 8 "''status''" COMMAND] g c
  obtain s' where "send ascii_bytes s_one [7, 0, 0, 0] 8 ''status'' COMMAND (WriteFails (TransportError 0)) WriteOk = (None, s')"
    "conn s' = conn s_one" "authed s' = authed s_one"
    "requests s' = AList.update 7 \<lparr>data = [], promise = 8\<rparr> (requests s_one)"
    "effects s' = effects s_one @ [Reject 8 (TransportError 0)]"
    by auto
  with g show ?thesis by (simp add: s_one_def)
qed

section \<open>Teardown\<close>

text \<open>
  Both ways of teardown empty the map and call \<^verbatim>\<open>reject\<close> of every pending request, in the
  order of the map. The \<^verbatim>\<open>finally\<close> block of \<^verbatim>\<open>read\<close>, when the connection is still the one
  the loop was started on, also rejects the authentication slot; \<^verbatim>\<open>disconnect\<close> closes the
  connection and clears the slot without a call of its \<^verbatim>\<open>reject\<close>.
\<close>

lemma disconnect_effects:
  "requests (disconnect s) = [] \<and> conn (disconnect s) = None \<and> authed (disconnect s) = None
   \<and> effects (disconnect s) =
       effects s @ (case conn s of None \<Rightarrow> [] | Some c \<Rightarrow> [Close c])
         @ map (\<lambda>(k, request). Reject (promise request) (Error ''read EOF'')) (requests s)"
  by (simp add: disconnect_def reject_all_def Let_def split: option.splits)

lemma read_teardown_effects:
  "requests (read_finally s (conn s)) = [] \<and> conn (read_finally s (conn s)) = None
   \<and> authed (read_finally s (conn s)) = None
   \<and> effects (read_finally s (conn s)) =
       effects s @ (case authed s of None \<Rightarrow> [] | Some a \<Rightarrow> [AuthReject a RconConnectionClosedException])
         @ map (\<lambda>(k, request). Reject (promise request) RconConnectionClosedException) (requests s)"
  by (simp add: read_finally_def reject_all_def authed_reject_def Let_def split: option.splits)

lemma read_superseded_unchanged:
  "conn s \<noteq> c \<Longrightarrow> read_finally s c = s"
  by (simp add: read_finally_def)

lemma read_teardown_two_pending:
  "read_finally s_two (Some 3) =
     \<lparr>authed = None, conn = None, outstandingData = None, requests = [],
      effects = [AuthReject 0 RconConnectionClosedException,
                 Reject 7 RconConnectionClosedException, Reject 8 RconConnectionClosedException]\<rparr>"
  by (simp add: read_finally_def s_two_def reject_all_def authed_reject_def)

text \<open>
  C7, on \<^verbatim>\<open>disconnect\<close>. With a connection open, the authentication slot 0 in place and two
  requests pending, \<^verbatim>\<open>disconnect()\<close> closes the connection, rejects both requests with
  \<^verbatim>\<open>Error("read EOF")\<close> and leaves the map empty, but the authentication slot is only cleared:
  no \<^verbatim>\<open>reject\<close> of it is among the calls made.
\<close>

theorem disconnect_does_not_reject_authentication:
  "disconnect s_two =
     \<lparr>authed = None, conn = None, outstandingData = None, requests = [],
      effects = [Close 3, Reject 7 (Error ''read EOF''), Reject 8 (Error ''read EOF'')]\<rparr>"
  by (simp add: disconnect_def s_two_def reject_all_def)

section \<open>The loop of \<^verbatim>\<open>readChunk\<close>\<close>

lemmas eval_defs = readChunk_def fresh_def concat_u8_def buffer_def getInt32_def le_nat_def
  to_int32_def slice_u8_def slice_from_def rel_index_def dispatch_def RESPONSE_AUTH_def
  RESPONSE_VALUE_def equals_def FrameBuffer_def s_one_def frame_hi_def frame_end_def Let_def

text \<open>
  The loop routes the packets that \<open>scan\<close> lists, in that order, ends the way \<open>scan\<close> says,
  and keeps the bytes \<open>scan\<close> returns when it ends by the \<^verbatim>\<open>break\<close>.
\<close>

lemma readLoop_scan:
  "readLoop dec s d = (case scan d of (pks, c, rest) \<Rightarrow> (c, finish c rest (dispatch_all dec s pks)))"
proof (induction dec s d rule: readLoop.induct)
  case (1 dec s d)
  show ?case
    apply (subst readLoop.simps)
    apply (subst scan.simps)
    using 1 by (auto split: option.splits prod.splits simp: finish_def)
qed

text \<open>One turn of the loop, case by case.\<close>

lemma scan_empty: "bytes d = [] \<Longrightarrow> scan d = ([], LoopEnded, [])"
  by (subst scan.simps) simp

lemma scan_range_error:
  "bytes d \<noteq> [] \<Longrightarrow> getInt32 (buffer d) 0 = None \<Longrightarrow> scan d = ([], Threw RangeError, bytes d)"
  by (subst scan.simps) simp

lemma scan_zero:
  "bytes d \<noteq> [] \<Longrightarrow> getInt32 (buffer d) 0 = Some 0 \<Longrightarrow> scan d = ([], Returned, bytes d)"
  by (subst scan.simps) simp

lemma scan_keep:
  "bytes d \<noteq> [] \<Longrightarrow> getInt32 (buffer d) 0 = Some len \<Longrightarrow> len \<noteq> 0
   \<Longrightarrow> \<not> (10 \<le> len \<and> len + 4 \<le> int (length (bytes d)))
   \<Longrightarrow> scan d = ([], Broke, bytes d)"
  by (subst scan.simps) auto

lemma scan_frame:
  assumes "getInt32 (buffer d) 0 = Some len" "10 \<le> len" "len + 4 \<le> int (length (bytes d))"
  shows "\<exists>i t. getInt32 (bytes d) 4 = Some i \<and> getInt32 (bytes d) 8 = Some t \<and>
     scan d = (case scan (fresh (slice_from (bytes d) (4 + len))) of
                 (pks, c, rest) \<Rightarrow> ((i, t, slice_u8 (bytes d) 12 (12 + len - 10)) # pks, c, rest))"
proof -
  from assms have l: "14 \<le> length (bytes d)" by simp
  then obtain i where i: "getInt32 (buffer d) 4 = Some i" "getInt32 (bytes d) 4 = Some i"
    using getInt32_in_view [of 4 d] by auto
  from l obtain t where t: "getInt32 (buffer d) 8 = Some t" "getInt32 (bytes d) 8 = Some t"
    using getInt32_in_view [of 8 d] by auto
  from l have ne: "length (bytes d) \<noteq> 0" by auto
  show ?thesis
    using assms i t ne by (subst scan.simps) auto
qed

text \<open>
  More bytes behind the data do not change what has been decoded: the loop continues on the
  bytes that were left, followed by the new ones. The spare bytes of the buffer can only
  matter while nothing has been decoded, since every slice is a new array.
\<close>

lemma scan_extend:
  assumes "scan d = (pks, c, rest)" "c = LoopEnded \<or> c = Broke"
  shows "scan \<lparr>bytes = bytes d @ e, spare = sp\<rparr> =
         (case scan \<lparr>bytes = rest @ e, spare = (if pks = [] then sp else [])\<rparr> of
            (qs, c', rest') \<Rightarrow> (pks @ qs, c', rest'))"
  using assms
proof (induction d arbitrary: pks c rest e sp rule: scan.induct)
  case (1 d)
  show ?case
  proof (cases "bytes d = []")
    case True
    with "1.prems" show ?thesis by (simp add: scan_empty)
  next
    case ne: False
    show ?thesis
    proof (cases "getInt32 (buffer d) 0")
      case None
      with ne "1.prems" show ?thesis by (auto simp: scan_range_error)
    next
      case (Some len)
      show ?thesis
      proof (cases "len = 0")
        case True
        with ne Some "1.prems" show ?thesis by (auto simp: scan_zero)
      next
        case nz: False
        show ?thesis
        proof (cases "10 \<le> len \<and> len + 4 \<le> int (length (bytes d))")
          case False
          with ne Some nz "1.prems" show ?thesis by (auto simp: scan_keep)
        next
          case fr: True
          let ?r = "slice_from (bytes d) (4 + len)"
          let ?p = "slice_u8 (bytes d) 12 (12 + len - 10)"
          let ?x = "\<lparr>bytes = bytes d @ e, spare = sp\<rparr>"
          from fr have l: "14 \<le> length (bytes d)" by simp
          from ne have lne: "length (bytes d) \<noteq> 0" by simp
          from scan_frame [OF Some] fr obtain i t where
            it: "getInt32 (bytes d) 4 = Some i" "getInt32 (bytes d) 8 = Some t"
            and sd: "scan d = (case scan (fresh ?r) of (pks, c, rest) \<Rightarrow> ((i, t, ?p) # pks, c, rest))"
            by auto
          obtain pks' where inner: "scan (fresh ?r) = (pks', c, rest)" and pks: "pks = (i, t, ?p) # pks'"
            using sd "1.prems"(1) by (auto split: prod.splits)
          have bi: "getInt32 (buffer d) 4 = Some i" "getInt32 (buffer d) 8 = Some t"
            using it l by (simp_all add: buffer_def getInt32_append)
          have h0: "getInt32 (buffer ?x) 0 = Some len"
            using Some l by (simp add: buffer_def getInt32_def)
          have hx: "getInt32 (bytes ?x) 4 = Some i" "getInt32 (bytes ?x) 8 = Some t"
            using it l by (simp_all add: getInt32_append)
          have lx: "len + 4 \<le> int (length (bytes ?x))" using fr by simp
          from scan_frame [OF h0 _ lx] fr hx
          have sx: "scan ?x = (case scan (fresh (slice_from (bytes ?x) (4 + len))) of
                 (pks, c, rest) \<Rightarrow> ((i, t, slice_u8 (bytes ?x) 12 (12 + len - 10)) # pks, c, rest))"
            by auto
          have r: "slice_from (bytes ?x) (4 + len) = ?r @ e"
            using fr by (simp add: slice_from_append)
          have p: "slice_u8 (bytes ?x) 12 (12 + len - 10) = ?p"
            using fr by (simp add: slice_u8_append)
          have ih: "scan \<lparr>bytes = bytes (fresh ?r) @ e, spare = []\<rparr> =
              (case scan \<lparr>bytes = rest @ e, spare = (if pks' = [] then [] else [])\<rparr> of
                 (qs, c', rest') \<Rightarrow> (pks' @ qs, c', rest'))"
            using "1.IH" [OF lne Some nz fr refl bi inner "1.prems"(2), where e = e and sp = "[]"]
            by simp
          have sx': "scan ?x = (case scan (fresh (?r @ e)) of
                 (pks, c, rest) \<Rightarrow> ((i, t, ?p) # pks, c, rest))"
            using sx by (simp only: r p)
          show ?thesis
            using sx' ih by (simp add: pks fresh_def split: prod.splits)
        qed
      qed
    qed
  qed
qed


lemma scan_spare_irrelevant:
  assumes "4 \<le> length (bytes d)"
  shows "scan d = scan (fresh (bytes d))"
proof -
  let ?f = "fresh (bytes d)"
  have bf: "bytes ?f = bytes d" by (simp add: fresh_def)
  from assms have ne: "bytes d \<noteq> []" by auto
  from assms obtain len where len: "getInt32 (buffer d) 0 = Some len" "getInt32 (buffer ?f) 0 = Some len"
    by (auto simp: getInt32_def buffer_def fresh_def)
  show ?thesis
  proof (cases "len = 0")
    case True
    with len ne show ?thesis by (simp add: scan_zero bf)
  next
    case nz: False
    show ?thesis
    proof (cases "10 \<le> len \<and> len + 4 \<le> int (length (bytes d))")
      case False
      with len ne nz show ?thesis by (simp add: scan_keep bf)
    next
      case True
      with scan_frame [OF len(1)] scan_frame [OF len(2)] show ?thesis
        by (auto simp: bf)
    qed
  qed
qed

lemma scan_short:
  assumes "bytes d \<noteq> []" "length (bytes d) < 4" "scan d = (pks, c, rest)" "c = LoopEnded \<or> c = Broke"
  shows "pks = [] \<and> c = Broke \<and> rest = bytes d"
proof (cases "getInt32 (buffer d) 0")
  case None
  with assms show ?thesis by (auto simp: scan_range_error)
next
  case (Some len)
  show ?thesis
  proof (cases "len = 0")
    case True
    with assms Some show ?thesis by (auto simp: scan_zero)
  next
    case False
    with assms Some have "scan d = ([], Broke, bytes d)"
      by (intro scan_keep) auto
    with assms show ?thesis by simp
  qed
qed

lemma scan_short_fresh:
  assumes "xs \<noteq> []" "length xs < 4"
  shows "scan (fresh xs) = ([], Threw RangeError, xs)"
  using assms scan_range_error [of "fresh xs"]
  by (simp add: fresh_def buffer_def getInt32_def)

text \<open>
  When the loop ends by its condition nothing is left; when it ends by the \<^verbatim>\<open>break\<close>, the
  bytes it keeps do not start with a complete packet.
\<close>

lemma scan_rest:
  assumes "scan d = (pks, c, rest)"
  shows "(c = LoopEnded \<longrightarrow> rest = []) \<and> (c = Broke \<longrightarrow> incomplete rest)"
  using assms
proof (induction d arbitrary: pks rule: scan.induct)
  case (1 d)
  show ?case
  proof (cases "bytes d = []")
    case True
    with "1.prems" show ?thesis by (simp add: scan_empty)
  next
    case ne: False
    then have lne: "length (bytes d) \<noteq> 0" by simp
    show ?thesis
    proof (cases "getInt32 (buffer d) 0")
      case None
      with ne "1.prems" show ?thesis by (auto simp: scan_range_error)
    next
      case (Some len)
      show ?thesis
      proof (cases "len = 0")
        case True
        with ne Some "1.prems" show ?thesis by (auto simp: scan_zero)
      next
        case nz: False
        show ?thesis
        proof (cases "10 \<le> len \<and> len + 4 \<le> int (length (bytes d))")
          case False
          with ne Some nz "1.prems" have r: "rest = bytes d" "c = Broke"
            by (auto simp: scan_keep)
          have "incomplete (bytes d)"
          proof (cases "4 \<le> length (bytes d)")
            case True
            then have "getInt32 (bytes d) 0 = Some len"
              using Some by (simp add: buffer_def getInt32_def)
            with False nz ne show ?thesis by (simp add: incomplete_def)
          next
            case False
            then have "getInt32 (bytes d) 0 = None" by (simp add: getInt32_def)
            with ne show ?thesis by (simp add: incomplete_def)
          qed
          with r show ?thesis by simp
        next
          case fr: True
          from fr have l: "14 \<le> length (bytes d)" by simp
          from scan_frame [OF Some] fr obtain i t where
            it: "getInt32 (bytes d) 4 = Some i" "getInt32 (bytes d) 8 = Some t"
            and sd: "scan d = (case scan (fresh (slice_from (bytes d) (4 + len))) of
                  (pks, c, rest) \<Rightarrow> ((i, t, slice_u8 (bytes d) 12 (12 + len - 10)) # pks, c, rest))"
            by auto
          obtain pks' where inner: "scan (fresh (slice_from (bytes d) (4 + len))) = (pks', c, rest)"
            using sd "1.prems"(1) by (auto split: prod.splits)
          have bi: "getInt32 (buffer d) 4 = Some i" "getInt32 (buffer d) 8 = Some t"
            using it l by (simp_all add: buffer_def getInt32_append)
          show ?thesis
            using "1.IH" [OF lne Some nz fr refl bi inner] .
        qed
      qed
    qed
  qed
qed

lemma scan_keeps_incomplete: "scan d = (pks, Broke, rest) \<Longrightarrow> incomplete rest"
  using scan_rest by blast

lemma scan_ended_rest: "scan d = (pks, LoopEnded, rest) \<Longrightarrow> rest = []"
  using scan_rest by blast

lemma scan_incomplete:
  assumes "incomplete od" "scan (fresh od) = (pks, c, rest)" "c = LoopEnded \<or> c = Broke"
  shows "pks = [] \<and> c = Broke \<and> rest = od"
proof (cases "getInt32 od 0")
  case None
  with assms have "scan (fresh od) = ([], Threw RangeError, od)"
    using scan_range_error [of "fresh od"] by (simp add: incomplete_def fresh_def buffer_def)
  with assms show ?thesis by auto
next
  case (Some len)
  with assms have "scan (fresh od) = ([], Broke, od)"
    using scan_keep [of "fresh od" len] by (simp add: incomplete_def fresh_def buffer_def)
  with assms show ?thesis by auto
qed


section \<open>Chunks\<close>

lemma feed_single:
  "feed od [w] = (case scan (joined od w) of
      (pks, c, rest) \<Rightarrow> if c = LoopEnded \<or> c = Broke then Some (pks, carry c rest) else None)"
  by (simp split: prod.splits)

lemma feed_ConsE:
  assumes "feed od (chunk # chunks) = Some (ps, od')"
  obtains pks c rest qs where "scan (joined od chunk) = (pks, c, rest)" "c = LoopEnded \<or> c = Broke"
    "feed (carry c rest) chunks = Some (qs, od')" "ps = pks @ qs"
  using assms by (auto split: prod.splits if_splits option.splits)

lemma bytes_joined:
  "bytes (joined od w) = (case od of None \<Rightarrow> bytes w | Some od' \<Rightarrow> od' @ bytes w)"
  by (simp add: joined_def fresh_def concat_u8_def split: option.splits)

text \<open>
  Without the routing: when feeding chunk by chunk and feeding the whole stream in one chunk
  both go without a zero length and without an exception, they decode the same packets and
  carry over the same bytes.
\<close>

lemma feed_chunks_whole:
  assumes "od = None \<or> (\<exists>od'. od = Some od' \<and> incomplete od')"
    and "feed od chunks = Some (ps1, od1)"
    and "bytes w = concat (map bytes chunks)"
    and "feed od [w] = Some (ps2, od2)"
  shows "ps1 = ps2 \<and> od1 = od2"
  using assms
proof (induction chunks arbitrary: od w ps1 ps2 od2)
  case Nil
  from Nil.prems(2) have p1: "ps1 = []" "od1 = od" by simp_all
  from Nil.prems(3) have bw: "bytes w = []" by simp
  show ?case
  proof (cases od)
    case None
    with bw have "scan (joined od w) = ([], LoopEnded, [])"
      by (simp add: joined_def scan_empty)
    with Nil.prems(4) None p1 show ?thesis
      by (simp add: carry_def)
  next
    case (Some od')
    with Nil.prems(1) have inc: "incomplete od'" by simp
    have j: "joined od w = fresh od'"
      using Some bw by (simp add: joined_def concat_u8_def)
    from Nil.prems(4) obtain c rest where s: "scan (fresh od') = (ps2, c, rest)"
      "c = LoopEnded \<or> c = Broke" "od2 = carry c rest"
      unfolding feed_single j by (auto split: prod.splits if_splits)
    from scan_incomplete [OF inc s(1,2)] s(3) Some p1 show ?thesis
      by (simp add: carry_def)
  qed
next
  case (Cons chunk chunks)
  define R where "R = concat (map bytes chunks)"
  from Cons.prems(2) obtain psA cA rA psB where
    sA: "scan (joined od chunk) = (psA, cA, rA)" and cA: "cA = LoopEnded \<or> cA = Broke"
    and fB: "feed (carry cA rA) chunks = Some (psB, od1)" and ps1: "ps1 = psA @ psB"
    by (rule feed_ConsE)
  let ?W = "joined od w"
  have bW: "bytes ?W = bytes (joined od chunk) @ R"
    using Cons.prems(3) by (simp add: bytes_joined R_def split: option.splits)
  then have W: "?W = \<lparr>bytes = bytes (joined od chunk) @ R, spare = spare ?W\<rparr>"
    by simp
  from Cons.prems(4) obtain c2 r2 where sW: "scan ?W = (ps2, c2, r2)"
    and c2: "c2 = LoopEnded \<or> c2 = Broke" and od2: "od2 = carry c2 r2"
    unfolding feed_single by (auto split: prod.splits if_splits)
  define sp where "sp = (if psA = [] then spare ?W else [])"
  from scan_extend [OF sA cA, of R "spare ?W"] W sW
  obtain qs where q: "scan \<lparr>bytes = rA @ R, spare = sp\<rparr> = (qs, c2, r2)" and ps2: "ps2 = psA @ qs"
    by (auto simp: sp_def split: prod.splits)
  from cA show ?case
  proof
    assume e: "cA = LoopEnded"
    with sA have "rA = []" by (simp add: scan_ended_rest)
    with q have "scan (joined None \<lparr>bytes = R, spare = sp\<rparr>) = (qs, c2, r2)"
      by (simp add: joined_def)
    then have "feed None [\<lparr>bytes = R, spare = sp\<rparr>] = Some (qs, od2)"
      using c2 od2 unfolding feed_single by simp
    from Cons.IH [OF _ _ _ this, of psB] fB e show ?thesis
      by (simp add: carry_def R_def ps1 ps2)
  next
    assume b: "cA = Broke"
    with sA have inc: "incomplete rA" by (simp add: scan_keeps_incomplete)
    then have rne: "rA \<noteq> []" by (simp add: incomplete_def)
    from b have car: "carry cA rA = Some rA" by (simp add: carry_def)
    show ?thesis
    proof (cases "4 \<le> length (rA @ R) \<or> sp = []")
      case True
      then have "scan (fresh (rA @ R)) = (qs, c2, r2)"
      proof
        assume "4 \<le> length (rA @ R)"
        then show ?thesis
          using scan_spare_irrelevant [of "\<lparr>bytes = rA @ R, spare = sp\<rparr>"] q by simp
      next
        assume "sp = []"
        with q show ?thesis by (simp add: fresh_def)
      qed
      then have "scan (joined (Some rA) (fresh R)) = (qs, c2, r2)"
        by (simp add: joined_def fresh_def concat_u8_def)
      then have "feed (Some rA) [fresh R] = Some (qs, od2)"
        using c2 od2 unfolding feed_single by simp
      from Cons.IH [OF _ _ _ this, of psB] fB inc car show ?thesis
        by (simp add: R_def ps1 ps2 fresh_def)
    next
      case False
      then have short: "length (rA @ R) < 4" by simp
      from scan_short [OF _ _ q c2] rne short
      have qs: "qs = []" "c2 = Broke" "r2 = rA @ R" by simp_all
      show ?thesis
      proof (cases chunks)
        case Nil
        with fB car qs od2 show ?thesis
          by (simp add: R_def ps1 ps2 carry_def)
      next
        case (Cons chunk' chunks')
        have "length (rA @ bytes chunk') < 4"
          using short by (simp add: R_def Cons)
        with rne have "scan (joined (Some rA) chunk') = ([], Threw RangeError, rA @ bytes chunk')"
          by (simp add: joined_def concat_u8_def scan_short_fresh)
        with fB car Cons show ?thesis by simp
      qed
    qed
  qed
qed


text \<open>The routing does not touch the carried-over bytes.\<close>

lemma dispatch_outstandingData [simp]:
  "outstandingData (dispatch dec s i t p) = outstandingData s"
  by (simp add: dispatch_def authed_resolve_def authed_reject_def Let_def split: option.splits)

lemma dispatch_update_outstandingData:
  "dispatch dec (s\<lparr>outstandingData := x\<rparr>) i t p = (dispatch dec s i t p)\<lparr>outstandingData := x\<rparr>"
  by (simp add: dispatch_def authed_resolve_def authed_reject_def Let_def split: option.splits)

lemma dispatch_all_outstandingData [simp]:
  "outstandingData (dispatch_all dec s pks) = outstandingData s"
  by (induction pks arbitrary: s) auto

lemma dispatch_all_update_outstandingData:
  "dispatch_all dec (s\<lparr>outstandingData := x\<rparr>) pks = (dispatch_all dec s pks)\<lparr>outstandingData := x\<rparr>"
  by (induction pks arbitrary: s) (auto simp: dispatch_update_outstandingData)

lemma readChunk_scan:
  "readChunk dec s chunk =
     (case scan (joined (outstandingData s) chunk) of
        (pks, c, rest) \<Rightarrow> (c, (dispatch_all dec s pks)\<lparr>outstandingData := carry c rest\<rparr>))"
proof (cases "outstandingData s")
  case None
  have "(dispatch_all dec s pks)\<lparr>outstandingData := None\<rparr> = dispatch_all dec s pks" for pks
    using None by (metis dispatch_all_outstandingData rcon.surjective rcon.update_convs(3))
  with None show ?thesis
    by (auto simp: readChunk_def readLoop_scan joined_def finish_def carry_def split: prod.splits)
next
  case (Some od)
  then show ?thesis
    by (auto simp: readChunk_def readLoop_scan joined_def finish_def carry_def
        dispatch_all_update_outstandingData split: prod.splits)
qed

lemma readChunks_feed:
  assumes "feed (outstandingData s) chunks = Some (pks, od')"
  shows "readChunks dec s chunks e = (e, (dispatch_all dec s pks)\<lparr>outstandingData := od'\<rparr>)"
  using assms
proof (induction chunks arbitrary: s pks)
  case Nil
  then show ?case by auto
next
  case (Cons chunk chunks)
  from Cons.prems obtain ps c rest qs where
    sc: "scan (joined (outstandingData s) chunk) = (ps, c, rest)" and c: "c = LoopEnded \<or> c = Broke"
    and f: "feed (carry c rest) chunks = Some (qs, od')" and pks: "pks = ps @ qs"
    by (rule feed_ConsE)
  let ?s' = "(dispatch_all dec s ps)\<lparr>outstandingData := carry c rest\<rparr>"
  have rc: "readChunk dec s chunk = (c, ?s')"
    by (simp add: readChunk_scan sc)
  have "feed (outstandingData ?s') chunks = Some (qs, od')"
    using f by simp
  from Cons.IH [OF this] have "readChunks dec ?s' chunks e = (e, (dispatch_all dec ?s' qs)\<lparr>outstandingData := od'\<rparr>)" .
  with rc c show ?case
    by (auto simp: pks dispatch_all_append dispatch_all_update_outstandingData)
qed

lemma clean_run_feed:
  "clean_run dec s chunks \<longleftrightarrow> feed (outstandingData s) chunks \<noteq> None"
proof (induction chunks arbitrary: s)
  case Nil
  show ?case by simp
next
  case (Cons chunk chunks)
  show ?case
    by (auto simp: readChunk_scan Cons.IH split: prod.splits option.splits)
qed

lemma dispatched_feed:
  "feed od chunks = Some (pks, od') \<Longrightarrow> dispatched od chunks = pks"
proof (induction chunks arbitrary: od pks)
  case Nil
  then show ?case by simp
next
  case (Cons chunk chunks)
  from Cons.prems obtain ps c rest qs where
    sc: "scan (joined od chunk) = (ps, c, rest)" and c: "c = LoopEnded \<or> c = Broke"
    and f: "feed (carry c rest) chunks = Some (qs, od')" and pks: "pks = ps @ qs"
    by (rule feed_ConsE)
  from Cons.IH [OF f] sc c show ?case
    by (auto simp: pks)
qed

text \<open>Concrete runs of \<^verbatim>\<open>readChunk\<close>, evaluated.\<close>

lemma readChunk_a:
  "readChunk ascii_text s_one chunk_a = (Broke, s_one\<lparr>outstandingData := Some [12, 0, 0, 0, 5, 0]\<rparr>)"
  by (simp add: eval_defs chunk_a_def readLoop.simps)

lemma readChunk_b:
  "readChunk ascii_text (s_one\<lparr>outstandingData := Some [12, 0, 0, 0, 5, 0]\<rparr>) chunk_b =
     (Broke, s_one\<lparr>outstandingData := Some [14, 0, 0, 0, 5, 0, 0],
                    requests := [(5, \<lparr>data = [72, 105], promise = 7\<rparr>)]\<rparr>)"
  by (simp add: eval_defs chunk_b_def readLoop.simps)

lemma readChunk_c:
  "readChunk ascii_text (s_one\<lparr>outstandingData := Some [14, 0, 0, 0, 5, 0, 0],
                    requests := [(5, \<lparr>data = [72, 105], promise = 7\<rparr>)]\<rparr>) chunk_c =
     (LoopEnded, s_one\<lparr>requests := [], effects := [Resolve 7 (ascii_text [72, 105])]\<rparr>)"
  by (simp add: eval_defs chunk_c_def readLoop.simps)

lemma readChunk_whole:
  "readChunk ascii_text s_one chunk_whole =
     (LoopEnded, s_one\<lparr>requests := [], effects := [Resolve 7 (ascii_text [72, 105])]\<rparr>)"
  by (simp add: eval_defs chunk_whole_def readLoop.simps)

lemma readChunk_zero:
  "readChunk ascii_text s_one chunk_zero = (Returned, s_one)"
  by (simp add: eval_defs chunk_zero_def readLoop.simps)

lemma readChunk_frame_end:
  "readChunk ascii_text s_one chunk_frame_end =
     (LoopEnded, s_one\<lparr>requests := [], effects := [Resolve 7 (ascii_text [])]\<rparr>)"
  by (simp add: eval_defs chunk_frame_end_def readLoop.simps)

lemma readChunk_zero_whole:
  "readChunk ascii_text s_one chunk_zero_whole = (Returned, s_one)"
  by (simp add: eval_defs chunk_zero_whole_def readLoop.simps)

lemma readChunk_split_a:
  "readChunk ascii_text s_one chunk_split_a =
     (Threw RangeError, s_one\<lparr>requests := [(5, \<lparr>data = [72, 105], promise = 7\<rparr>)]\<rparr>)"
  by (simp add: eval_defs chunk_split_a_def readLoop.simps)

lemma readChunk_zero_carry:
  "readChunk ascii_text s_carry (fresh [0, 0, 9, 9]) = (Returned, s_one)"
  by (simp add: readChunk_def readLoop.simps s_carry_def s_one_def fresh_def concat_u8_def
      buffer_def getInt32_def le_nat_def to_int32_def)

text \<open>
  C3 (amended). For every byte stream and every way of cutting it into chunks, starting with
  nothing carried over: as long as no call of \<^verbatim>\<open>readChunk\<close> ends on a zero length (where the
  buffered bytes are dropped) or with an exception, neither when the chunks are fed one by one
  nor when the whole stream is fed as a single chunk, both ways dispatch the same packets in
  the same order and leave the client in the same state: the same callbacks called in the
  same order, the same pending requests, the same bytes carried over.
\<close>

theorem chunk_boundaries_do_not_matter:
  assumes "outstandingData s = None"
    and "bytes whole = concat (map bytes chunks)"
    and "clean_run dec s chunks"
    and "clean_run dec s [whole]"
  shows "snd (readChunks dec s chunks ending) = snd (readChunk dec s whole)
         \<and> dispatched None chunks = dispatched None [whole]"
proof -
  from assms(1,3) obtain ps1 od1 where f1: "feed None chunks = Some (ps1, od1)"
    by (auto simp: clean_run_feed)
  from assms(1,4) obtain ps2 od2 where f2: "feed None [whole] = Some (ps2, od2)"
    by (auto simp: clean_run_feed)
  from feed_chunks_whole [OF _ f1 assms(2) f2] have eq: "ps1 = ps2" "od1 = od2"
    by simp_all
  have r1: "readChunks dec s chunks ending = (ending, (dispatch_all dec s ps1)\<lparr>outstandingData := od1\<rparr>)"
    by (rule readChunks_feed) (simp only: assms(1) f1)
  have r2: "readChunks dec s [whole] None = (None, (dispatch_all dec s ps2)\<lparr>outstandingData := od2\<rparr>)"
    by (rule readChunks_feed) (simp only: assms(1) f2)
  have "snd (readChunks dec s [whole] None) = snd (readChunk dec s whole)"
    by (auto split: prod.splits completion.splits)
  with r1 r2 eq dispatched_feed [OF f1] dispatched_feed [OF f2] show ?thesis
    by simp
qed

theorem chunk_boundaries_do_not_matter_witness:
  "outstandingData s_one = None
   \<and> bytes chunk_whole = concat (map bytes [chunk_a, chunk_b, chunk_c])
   \<and> clean_run ascii_text s_one [chunk_a, chunk_b, chunk_c]
   \<and> clean_run ascii_text s_one [chunk_whole]
   \<and> snd (readChunks ascii_text s_one [chunk_a, chunk_b, chunk_c] None)
       = snd (readChunk ascii_text s_one chunk_whole)
   \<and> snd (readChunk ascii_text s_one chunk_whole)
       = s_one\<lparr>requests := [], effects := [Resolve 7 (ascii_text [72, 105])]\<rparr>
   \<and> dispatched None [chunk_a, chunk_b, chunk_c] = dispatched None [chunk_whole]"
proof -
  have o: "outstandingData s_one = None" by (simp add: s_one_def)
  have b: "bytes chunk_whole = concat (map bytes [chunk_a, chunk_b, chunk_c])"
    by (simp add: chunk_whole_def chunk_a_def chunk_b_def chunk_c_def fresh_def frame_hi_def frame_end_def)
  have c1: "clean_run ascii_text s_one [chunk_a, chunk_b, chunk_c]"
    by (simp add: readChunk_a readChunk_b readChunk_c)
  have c2: "clean_run ascii_text s_one [chunk_whole]"
    by (simp add: readChunk_whole)
  from chunk_boundaries_do_not_matter [OF o b c1 c2, of None] o b c1 c2 show ?thesis
    by (simp add: readChunk_whole)
qed

text \<open>
  The claim as stated, for every byte stream, fails on a stream with a zero length prefix:
  four zero bytes followed by the frame of the marker packet for the pending request 5. Fed
  as two chunks, the first is dropped and the second resolves the request; fed as one chunk,
  everything is dropped at the zero length and nothing is dispatched.
\<close>

theorem zero_prefix_depends_on_chunks_counterexample:
  "outstandingData s_one = None
   \<and> bytes chunk_zero_whole = concat (map bytes [chunk_zero, chunk_frame_end])
   \<and> snd (readChunks ascii_text s_one [chunk_zero, chunk_frame_end] None)
       = s_one\<lparr>requests := [], effects := [Resolve 7 (ascii_text [])]\<rparr>
   \<and> snd (readChunk ascii_text s_one chunk_zero_whole) = s_one
   \<and> snd (readChunks ascii_text s_one [chunk_zero, chunk_frame_end] None)
       \<noteq> snd (readChunk ascii_text s_one chunk_zero_whole)"
proof -
  have r: "s_one\<lparr>requests := [], effects := [Resolve 7 (ascii_text [])]\<rparr> \<noteq> s_one"
    by (simp add: s_one_def)
  have b: "bytes chunk_zero_whole = concat (map bytes [chunk_zero, chunk_frame_end])"
    by (simp add: chunk_zero_whole_def chunk_zero_def chunk_frame_end_def fresh_def)
  have o: "outstandingData s_one = None" by (simp add: s_one_def)
  show ?thesis
    using r b o by (simp add: readChunk_zero readChunk_frame_end readChunk_zero_whole)
qed

text \<open>
  A chunk boundary inside a length prefix: the first chunk ends two bytes into the second
  frame. After the first packet the loop is left with an array of two bytes, reading the
  length raises a \<^verbatim>\<open>RangeError\<close>, and \<^verbatim>\<open>read\<close> tears the connection down; the request is
  rejected. The same bytes in one chunk resolve it.
\<close>

lemma split_length_prefix_tears_down:
  "bytes chunk_whole = concat (map bytes [chunk_split_a, chunk_split_b])
   \<and> read ascii_text s_one [chunk_split_a, chunk_split_b] None =
       (Some RangeError,
        \<lparr>authed = None, conn = None, outstandingData = None, requests = [],
         effects = [AuthReject 0 RconConnectionClosedException, Reject 7 RconConnectionClosedException]\<rparr>)
   \<and> read ascii_text s_one [chunk_whole] None =
       (None,
        \<lparr>authed = None, conn = None, outstandingData = None, requests = [],
         effects = [Resolve 7 (ascii_text [72, 105]), AuthReject 0 RconConnectionClosedException]\<rparr>)"
proof -
  have b: "bytes chunk_whole = concat (map bytes [chunk_split_a, chunk_split_b])"
    by (simp add: chunk_whole_def chunk_split_a_def chunk_split_b_def fresh_def frame_hi_def frame_end_def)
  have c: "conn s_one = Some 3" by (simp add: s_one_def)
  have r1: "read ascii_text s_one [chunk_split_a, chunk_split_b] None =
       (Some RangeError,
        \<lparr>authed = None, conn = None, outstandingData = None, requests = [],
         effects = [AuthReject 0 RconConnectionClosedException, Reject 7 RconConnectionClosedException]\<rparr>)"
    by (simp add: read_def c readChunk_split_a)
       (simp add: read_finally_def authed_reject_def reject_all_def s_one_def)
  have r2: "read ascii_text s_one [chunk_whole] None =
       (None,
        \<lparr>authed = None, conn = None, outstandingData = None, requests = [],
         effects = [Resolve 7 (ascii_text [72, 105]), AuthReject 0 RconConnectionClosedException]\<rparr>)"
    by (simp add: read_def c readChunk_whole)
       (simp add: read_finally_def authed_reject_def reject_all_def s_one_def)
  from b r1 r2 show ?thesis by simp
qed

section \<open>A zero length\<close>

text \<open>
  C5 (amended). When the loop of \<^verbatim>\<open>readChunk\<close> reads a zero length prefix it returns at once,
  and nothing is retained: when the data the call starts with (the carried-over bytes followed
  by the chunk) begins with a zero length, the call changes nothing but the carry-over, which
  is empty afterwards; and whenever a call ends on a zero length, also after some packets, the
  carry-over is empty afterwards. The zero prefix and all bytes behind it are dropped.
\<close>

theorem zero_length_discards_buffer:
  "(bytes (joined (outstandingData s) chunk) \<noteq> []
      \<and> getInt32 (buffer (joined (outstandingData s) chunk)) 0 = Some 0
    \<longrightarrow> readChunk dec s chunk = (Returned, s\<lparr>outstandingData := None\<rparr>))
   \<and> (fst (readChunk dec s chunk) = Returned
    \<longrightarrow> outstandingData (snd (readChunk dec s chunk)) = None)"
  by (auto simp: readChunk_scan scan_zero carry_def split: prod.splits)

theorem zero_length_discards_buffer_witness:
  "bytes (joined (outstandingData s_carry) (fresh [0, 0, 9, 9])) \<noteq> []
   \<and> getInt32 (buffer (joined (outstandingData s_carry) (fresh [0, 0, 9, 9]))) 0 = Some 0
   \<and> readChunk ascii_text s_carry (fresh [0, 0, 9, 9]) = (Returned, s_carry\<lparr>outstandingData := None\<rparr>)
   \<and> fst (readChunk ascii_text s_carry (fresh [0, 0, 9, 9])) = Returned
   \<and> outstandingData (snd (readChunk ascii_text s_carry (fresh [0, 0, 9, 9]))) = None"
  using zero_length_discards_buffer [of s_carry "fresh [0, 0, 9, 9]" ascii_text]
  by (simp add: s_carry_def s_one_def joined_def fresh_def concat_u8_def buffer_def getInt32_def
      le_nat_def to_int32_def)

text \<open>
  The claim as stated fails: with \<open>[0, 0]\<close> carried over and the chunk \<open>[0, 0, 9, 9]\<close>, the
  length read is zero, the call returns, and the six unconsumed bytes are not kept for the
  next read; nothing is.
\<close>

theorem zero_length_retains_counterexample:
  "outstandingData s_carry = Some [0, 0]
   \<and> getInt32 (concat_u8 [0, 0] [0, 0, 9, 9]) 0 = Some 0
   \<and> fst (readChunk ascii_text s_carry (fresh [0, 0, 9, 9])) = Returned
   \<and> outstandingData (snd (readChunk ascii_text s_carry (fresh [0, 0, 9, 9]))) \<noteq> Some [0, 0, 0, 0, 9, 9]
   \<and> outstandingData (snd (readChunk ascii_text s_carry (fresh [0, 0, 9, 9]))) = None"
  by (simp add: readChunk_zero_carry)
     (simp add: s_carry_def s_one_def concat_u8_def getInt32_def le_nat_def to_int32_def)

section \<open>Encoding and decoding\<close>

lemma scan_one_frame:
  assumes "length id' = 4" "int (length payload) + 10 < 2 ^ 31"
    "- (2 ^ 31) \<le> packetType" "packetType < 2 ^ 31" "getInt32 id' 0 = Some idNumber"
  shows "scan \<lparr>bytes = le32 (int (length payload) + 10) @ id' @ le32 packetType @ payload @ [0, 0] @ after,
               spare = sp\<rparr> =
         (case scan (fresh after) of (pks, c, rest) \<Rightarrow> ((idNumber, packetType, payload) # pks, c, rest))"
proof -
  let ?n = "int (length payload) + 10"
  let ?frame = "le32 ?n @ id' @ le32 packetType @ payload @ [0, 0] @ after"
  let ?d = "\<lparr>bytes = ?frame, spare = sp\<rparr>"
  have len: "getInt32 (buffer ?d) 0 = Some ?n"
    using getInt32_le32 [of "[]" 0 ?n] assms(2) by (simp add: buffer_def)
  have l: "?n + 4 \<le> int (length (bytes ?d))"
    using assms(1) by simp
  have i: "getInt32 (bytes ?d) 4 = Some idNumber"
    using assms(1,5) getInt32_at [of "le32 ?n" 4 id'] getInt32_at [of "[]" 0 id' "[]"] by simp
  have t: "getInt32 (bytes ?d) 8 = Some packetType"
    using getInt32_le32 [of "le32 ?n @ id'" 8 packetType] assms(1,3,4) by simp
  have r: "slice_from (bytes ?d) (4 + ?n) = after"
    using assms(1) by (simp add: slice_from_def rel_index_def nat_add_distrib)
  have p: "slice_u8 (bytes ?d) 12 (12 + ?n - 10) = payload"
    using assms(1) by (simp add: slice_u8_def rel_index_def Let_def nat_add_distrib)
  from scan_frame [OF len _ l] i t
  have "scan ?d = (case scan (fresh (slice_from (bytes ?d) (4 + ?n))) of
                 (pks, c, rest) \<Rightarrow> ((idNumber, packetType, slice_u8 (bytes ?d) 12 (12 + ?n - 10)) # pks, c, rest))"
    by auto
  then show ?thesis
    by (simp only: r p)
qed

text \<open>
  C2. For four id bytes, a payload shorter than \<open>2 ^ 31 - 10\<close> bytes and a type that is a 32-bit
  signed integer: the frame that \<^verbatim>\<open>sendData\<close> builds decodes to exactly one packet, whose id is
  the number of the id bytes and whose type and payload are the ones given, and the loop ends
  with all bytes consumed and nothing carried over. Handed to \<^verbatim>\<open>readChunk\<close> as a chunk (with
  nothing carried over before), the frame makes it route that one packet and end.
\<close>

theorem encode_decode_round_trip:
  assumes "length id' = 4" "int (length payload) + 10 < 2 ^ 31"
    "- (2 ^ 31) \<le> packetType" "packetType < 2 ^ 31" "outstandingData s = None"
  shows "\<exists>frame idNumber. sendBuffer id' payload packetType = Some frame
     \<and> getInt32 id' 0 = Some idNumber
     \<and> scan \<lparr>bytes = frame, spare = sp\<rparr> = ([(idNumber, packetType, payload)], LoopEnded, [])
     \<and> readChunk dec s \<lparr>bytes = frame, spare = sp\<rparr> =
           (LoopEnded, dispatch dec s idNumber packetType payload)"
proof -
  let ?frame = "le32 (int (length payload) + 10) @ id' @ le32 packetType @ payload @ [0, 0]"
  obtain idNumber where idn: "getInt32 id' 0 = Some idNumber"
    using assms(1) by (simp add: getInt32_def)
  have sb: "sendBuffer id' payload packetType = Some ?frame"
    using assms(1) by (rule sendBuffer_layout)
  have sc: "scan \<lparr>bytes = ?frame, spare = sp\<rparr> = ([(idNumber, packetType, payload)], LoopEnded, [])"
    using scan_one_frame [OF assms(1-4) idn, of "[]" sp] by (simp add: scan_empty fresh_def)
  have "(dispatch dec s idNumber packetType payload)\<lparr>outstandingData := None\<rparr>
        = dispatch dec s idNumber packetType payload"
    using assms(5) by (metis dispatch_outstandingData rcon.surjective rcon.update_convs(3))
  then have rc: "readChunk dec s \<lparr>bytes = ?frame, spare = sp\<rparr> =
           (LoopEnded, dispatch dec s idNumber packetType payload)"
    using assms(5) sc by (simp add: readChunk_scan joined_def carry_def)
  from sb idn sc rc show ?thesis by blast
qed

theorem encode_decode_round_trip_witness:
  "length [5, 0, 0, 0 :: byte] = 4 \<and> int (length [72, 105 :: byte]) + 10 < 2 ^ 31
   \<and> - (2 ^ 31) \<le> (0 :: int) \<and> (0 :: int) < 2 ^ 31 \<and> outstandingData s_one = None
   \<and> sendBuffer [5, 0, 0, 0] [72, 105] 0 = Some frame_hi
   \<and> scan \<lparr>bytes = frame_hi, spare = [9, 9]\<rparr> = ([(5, 0, [72, 105])], LoopEnded, [])
   \<and> readChunk ascii_text s_one \<lparr>bytes = frame_hi, spare = [9, 9]\<rparr> =
         (LoopEnded, s_one\<lparr>requests := [(5, \<lparr>data = [72, 105], promise = 7\<rparr>)]\<rparr>)"
proof -
  have d: "dispatch ascii_text s_one 5 0 [72, 105] = s_one\<lparr>requests := [(5, \<lparr>data = [72, 105], promise = 7\<rparr>)]\<rparr>"
    by (simp add: dispatch_def s_one_def RESPONSE_AUTH_def RESPONSE_VALUE_def equals_def
        FrameBuffer_def concat_u8_def)
  have o: "outstandingData s_one = None" by (simp add: s_one_def)
  from encode_decode_round_trip [of "[5, 0, 0, 0]" "[72, 105]" 0 s_one "[9, 9]" ascii_text] o
  show ?thesis
    by (simp add: sendBuffer_hi getInt32_five d)
qed


end
